theory Spec2Isabelle
  imports Complex_Main "HOL-Library.Multiset"
begin

section \<open>JavaScript strings\<close>

text \<open>
  A JavaScript string is a sequence of UTF-16 code units.  The model covers the code units
  below 256 (ASCII and Latin-1), one \<^typ>\<open>char\<close> each, which is enough for every
  constant of the program (the only non-ASCII one is the u-umlaut of the second core-region
  term).  On that range \<open>toLowerCase\<close> maps \<open>A-Z\<close> and the accented capitals
  \<open>0xC0-0xDE\<close> (without the multiplication sign \<open>0xD7\<close>) 32 code units up and
  leaves everything else alone.
\<close>

definition lower_char :: "char \<Rightarrow> char" where
  "lower_char c =
     (let n = (of_char c :: nat) in
      if (65 \<le> n \<and> n \<le> 90) \<or> (192 \<le> n \<and> n \<le> 222 \<and> n \<noteq> 215)
      then char_of (n + 32) else c)"

definition toLowerCase :: "string \<Rightarrow> string" where
  "toLowerCase s = map lower_char s"

text \<open>White space as \<open>String.prototype.trim\<close> sees it, below code unit 256.\<close>

definition is_space :: "char \<Rightarrow> bool" where
  "is_space c = ((of_char c :: nat) \<in> {9, 10, 11, 12, 13, 32, 160})"

definition trim :: "string \<Rightarrow> string" where
  "trim s = rev (dropWhile is_space (rev (dropWhile is_space s)))"

fun startsWith :: "string \<Rightarrow> string \<Rightarrow> bool" where
  "startsWith s [] = True"
| "startsWith [] (p # ps) = False"
| "startsWith (c # cs) (p # ps) = (c = p \<and> startsWith cs ps)"

definition endsWith :: "string \<Rightarrow> string \<Rightarrow> bool" where
  "endsWith s p = startsWith (rev s) (rev p)"

fun str_includes :: "string \<Rightarrow> string \<Rightarrow> bool" where
  "str_includes [] t = (t = [])"
| "str_includes (c # cs) t = (startsWith (c # cs) t \<or> str_includes cs t)"

text \<open>\<open>s.split(sep)\<close> for a separator of one character: never an empty array.\<close>

fun split_at :: "char \<Rightarrow> string \<Rightarrow> string list" where
  "split_at sep [] = [[]]"
| "split_at sep (c # cs) =
     (if c = sep then [] # split_at sep cs
      else (case split_at sep cs of
              [] \<Rightarrow> [[c]]
            | p # ps \<Rightarrow> (c # p) # ps))"

text \<open>\<open>xs.indexOf(x)\<close> and \<open>xs.findIndex(P)\<close>: \<open>None\<close> stands for \<open>-1\<close>.\<close>

fun findIndex :: "('a \<Rightarrow> bool) \<Rightarrow> 'a list \<Rightarrow> nat option" where
  "findIndex P [] = None"
| "findIndex P (x # xs) =
     (if P x then Some 0 else map_option Suc (findIndex P xs))"

definition indexOf :: "'a list \<Rightarrow> 'a \<Rightarrow> nat option" where
  "indexOf xs x = findIndex (\<lambda>y. y = x) xs"

subsection \<open>Character classes of the regular expressions\<close>

definition is_digit :: "char \<Rightarrow> bool" where
  "is_digit c = (let n = (of_char c :: nat) in 48 \<le> n \<and> n \<le> 57)"

text \<open>\<open>[a-z]\<close> under the \<open>i\<close> flag: the ASCII letters of both cases.\<close>

definition is_letter :: "char \<Rightarrow> bool" where
  "is_letter c =
     (let n = (of_char c :: nat) in (65 \<le> n \<and> n \<le> 90) \<or> (97 \<le> n \<and> n \<le> 122))"

text \<open>\<open>[0-9a-f]\<close> under the \<open>i\<close> flag.\<close>

definition is_hex :: "char \<Rightarrow> bool" where
  "is_hex c =
     (let n = (of_char c :: nat) in
      (48 \<le> n \<and> n \<le> 57) \<or> (65 \<le> n \<and> n \<le> 70) \<or> (97 \<le> n \<and> n \<le> 102))"

section \<open>Email validation (src/extract/scoreRelevance.js, lines 38--131)\<close>

definition GENERIC_PREFIXES :: "string list" where
  "GENERIC_PREFIXES =
     [''info'', ''contact'', ''sales'', ''office'', ''hello'', ''support'',
      ''enquiry'', ''enquiries'', ''bookings'', ''booking'', ''reservations'', ''reservation'']"

definition JUNK_PREFIXES :: "string list" where
  "JUNK_PREFIXES =
     [''privacy'', ''dpo'', ''compliance'', ''legal'', ''abuse'',
      ''noreply'', ''no-reply'', ''do-not-reply'', ''donotreply'',
      ''postmaster'', ''mailer-daemon'', ''webmaster'', ''hostmaster'', ''root'', ''admin'']"

definition JUNK_DOMAINS :: "string list" where
  "JUNK_DOMAINS =
     [''sentry.io'', ''inforegulator.org.za'', ''example.com'', ''company.com'',
      ''siteadresiniz.com'', ''yourdomain.com'', ''domain.com'', ''email.com'',
      ''test.com'', ''localhost'', ''ftc.gov'', ''adr.org'', ''hs01.kep.tr'',
      ''ustoa.com'', ''abta.co.uk'', ''caa.co.uk'', ''sedgwick.com'',
      ''verasafe.com'', ''iyzico.com'', ''dvm.legal'']"

definition MAX_TLD_LEN :: nat where
  "MAX_TLD_LEN = 12"

definition COMMON_TLD_PREFIXES :: "string list" where
  "COMMON_TLD_PREFIXES = [''com'', ''net'', ''org'', ''co'', ''travel'', ''tours'', ''info'']"

definition realCcTlds :: "string list" where
  "realCcTlds =
     [''tr'', ''uk'', ''au'', ''br'', ''cn'', ''de'', ''fr'', ''jp'', ''kr'', ''nl'', ''ru'',
      ''za'', ''in'', ''my'', ''sg'', ''nz'', ''mx'', ''ar'', ''il'', ''be'', ''at'', ''ch'',
      ''cz'', ''dk'', ''es'', ''fi'', ''gr'', ''hu'', ''ie'', ''it'', ''no'', ''pl'', ''pt'',
      ''ro'', ''se'', ''ua'']"

text \<open>\<open>String(email).toLowerCase().trim()\<close>\<close>

definition normalizeEmail :: "string \<Rightarrow> string" where
  "normalizeEmail e = trim (toLowerCase e)"

text \<open>\<open>/^\d+[a-z]/i\<close>: the leading run of digits is not empty and a letter follows it.\<close>

definition digits_then_letter :: "string \<Rightarrow> bool" where
  "digits_then_letter l =
     (takeWhile is_digit l \<noteq> [] \<and>
      (case dropWhile is_digit l of [] \<Rightarrow> False | c # _ \<Rightarrow> is_letter c))"

text \<open>\<open>/^u[0-9a-f]{4}/i\<close>\<close>

definition entity_prefix :: "string \<Rightarrow> bool" where
  "entity_prefix l =
     (case l of
        u # a # b # c # d # _ \<Rightarrow>
          (u = CHR ''u'' \<or> u = CHR ''U'') \<and> is_hex a \<and> is_hex b \<and> is_hex c \<and> is_hex d
      | _ \<Rightarrow> False)"

text \<open>\<open>/^[._%+-]/\<close>\<close>

definition special_start :: "string \<Rightarrow> bool" where
  "special_start l = (case l of [] \<Rightarrow> False | c # _ \<Rightarrow> c \<in> set ''._%+-'')"

text \<open>
  \<open>/\+?\d{2,}[-.]?\d{2,}/\<close> at the start of \<open>s\<close>.  The optional plus sign never decides
  a search, so the match starts at a digit: either four digits in a row, or a run of at
  least two digits, one of \<open>-\<close> and \<open>.\<close>, and two more digits.
\<close>

definition phone_here :: "string \<Rightarrow> bool" where
  "phone_here s =
     (let ds = takeWhile is_digit s; r = dropWhile is_digit s in
      4 \<le> length ds \<or>
      (2 \<le> length ds \<and>
       (case r of
          [] \<Rightarrow> False
        | sep # r' \<Rightarrow> (sep = CHR ''-'' \<or> sep = CHR ''.'') \<and> 2 \<le> length (takeWhile is_digit r'))))"

text \<open>The same expression searched anywhere in the string, as \<open>test\<close> does.\<close>

fun phone_like :: "string \<Rightarrow> bool" where
  "phone_like [] = False"
| "phone_like (c # cs) = (phone_here (c # cs) \<or> phone_like cs)"

text \<open>\<open>/^[a-z]+$/i\<close>\<close>

definition all_letters :: "string \<Rightarrow> bool" where
  "all_letters s = (s \<noteq> [] \<and> list_all is_letter s)"

text \<open>
  \<open>/^(com|net|org|co|travel|tours)\.[a-z]{1,4}$/i\<close> on \<open>secondLast + '.' + tld\<close>.  Neither
  label holds a dot (both come out of \<open>split('.')\<close>), so the expression matches exactly when
  the first label is one of the six words, in any case, and the second is one to four
  letters.
\<close>

definition SECOND_LEVEL_WORDS :: "string list" where
  "SECOND_LEVEL_WORDS = [''com'', ''net'', ''org'', ''co'', ''travel'', ''tours'']"

definition tld_junk_pattern :: "string \<Rightarrow> string \<Rightarrow> bool" where
  "tld_junk_pattern secondLast tld =
     (toLowerCase secondLast \<in> set SECOND_LEVEL_WORDS \<and>
      1 \<le> length tld \<and> length tld \<le> 4 \<and> list_all is_letter tld)"

text \<open>
  \<open>isValidEmail\<close>, check by check in the order of the source.  The destructuring
  \<open>[local, domain] = email.split('@')\<close> reads the first two pieces and ignores the rest;
  a missing second piece is \<open>undefined\<close>, which \<open>!domain\<close> rejects.
\<close>

definition isValidEmail :: "string \<Rightarrow> bool" where
  "isValidEmail e =
     (case split_at CHR ''@'' e of
        lcl # dmn # _ \<Rightarrow>
          if lcl = [] \<or> dmn = [] then False
          else if digits_then_letter lcl then False
          else if entity_prefix lcl then False
          else if special_start lcl then False
          else if phone_like lcl then False
          else if \<not> str_includes dmn ''.'' then False
          else
            (let parts = split_at CHR ''.'' dmn;
                 tld = last parts
             in
               if tld = [] \<or> length tld < 2 \<or> length tld > MAX_TLD_LEN then False
               else if \<not> all_letters tld then False
               else if length tld > 6 \<and>
                       (\<exists>p \<in> set COMMON_TLD_PREFIXES. startsWith tld p \<and> length tld > length p)
                    then False
               else if length parts \<ge> 2 \<and>
                       tld_junk_pattern (parts ! (length parts - 2)) tld \<and> length tld \<le> 4 \<and>
                       toLowerCase tld \<notin> set realCcTlds
                    then False
               else if (\<exists>jd \<in> set JUNK_DOMAINS. dmn = jd \<or> endsWith dmn (''.'' @ jd)) then False
               else if length dmn > 253 then False
               else True)
      | _ \<Rightarrow> False)"

text \<open>The local part and the top-level label as \<open>isValidEmail\<close> computes them.\<close>

definition local_of :: "string \<Rightarrow> string" where
  "local_of e = hd (split_at CHR ''@'' e)"

definition domain_labels :: "string \<Rightarrow> string list" where
  "domain_labels e =
     (case split_at CHR ''@'' e of lcl # dmn # _ \<Rightarrow> split_at CHR ''.'' dmn | _ \<Rightarrow> [])"

definition isJunkPrefix :: "string \<Rightarrow> bool" where
  "isJunkPrefix e =
     (let lcl = local_of e in
      \<exists>p \<in> set JUNK_PREFIXES.
        lcl = p \<or> startsWith lcl (p @ ''.'') \<or> startsWith lcl (p @ ''-''))"

definition isGeneric :: "string \<Rightarrow> bool" where
  "isGeneric e =
     (let lcl = local_of e in
      \<exists>p \<in> set GENERIC_PREFIXES.
        lcl = p \<or> startsWith lcl (p @ ''.'') \<or> startsWith lcl (p @ ''-''))"


section \<open>Email candidates: extraction, merge and ranking (src/extract/scoreRelevance.js, lines 151--274)\<close>

datatype email_kind = Generic | Personal | Unknown

datatype extractor = Regex | Ai | Both

record candidate =
  email :: string
  source_url :: string
  email_type :: email_kind
  confidence :: real
  extracted_by :: extractor

text \<open>
  The closure \<open>push\<close> of \<open>extractEmailsRegex\<close>, with its two captured variables \<open>seen\<close>
  and \<open>out\<close> passed along.
\<close>

definition push :: "string \<Rightarrow> string \<Rightarrow> string set \<times> candidate list \<Rightarrow> string set \<times> candidate list"
  where
  "push sourceUrl raw st =
     (let norm = normalizeEmail raw; seen = fst st; out = snd st in
      if norm = [] \<or> \<not> str_includes norm ''@'' \<or> norm \<in> seen then st
      else if \<not> isValidEmail norm then st
      else if isJunkPrefix norm then st
      else (insert norm seen,
            out @ [\<lparr>email = norm, source_url = sourceUrl,
                    email_type = (if isGeneric norm then Generic else Personal),
                    confidence = 9 / 10, extracted_by = Regex\<rparr>]))"

text \<open>
  \<open>extractEmailsRegex(html, sourceUrl)\<close>.  The HTML parser and the scan with \<open>EMAIL_REGEX\<close>
  are outside the model: \<open>found\<close> is the sequence of strings they hand to \<open>push\<close>, the
  \<open>mailto:\<close> addresses first and the matches in the visible text after them.
\<close>

definition extractEmailsRegex :: "string list \<Rightarrow> string \<Rightarrow> candidate list" where
  "extractEmailsRegex found sourceUrl = snd (fold (push sourceUrl) found ({}, []))"

subsection \<open>The language-model source (src/extract/openRouterExtract.js, lines 22--81)\<close>

text \<open>
  One element of the \<open>emails\<close> array of the model's reply.  A missing \<open>email\<close> or \<open>type\<close>
  is the empty string (both are read through \<open>|| ''\<close> and \<open>|| 'unknown'\<close>);
  \<open>item_confidence\<close> is \<open>Number(e.confidence)\<close>, \<open>None\<close> when that is \<open>NaN\<close>.
\<close>

record llm_item =
  item_email :: string
  item_type :: string
  item_confidence :: "real option"

definition llm_type :: "string \<Rightarrow> email_kind" where
  "llm_type t =
     (let ty = toLowerCase (if t = [] then ''unknown'' else t) in
      if ty = ''generic'' then Generic
      else if ty = ''personal'' then Personal
      else Unknown)"

definition llm_confidence :: "real option \<Rightarrow> real" where
  "llm_confidence c =
     (case c of
        None \<Rightarrow> 0
      | Some x \<Rightarrow> (if x < 0 then 0 else if x > 1 then 1 else x))"

text \<open>The loop over the parsed reply.\<close>

fun llm_candidates :: "llm_item list \<Rightarrow> string \<Rightarrow> candidate list" where
  "llm_candidates [] sourceUrl = []"
| "llm_candidates (e # es) sourceUrl =
     (let em = trim (toLowerCase (item_email e)) in
      if em = [] \<or> \<not> str_includes em ''@'' then llm_candidates es sourceUrl
      else \<lparr>email = em, source_url = sourceUrl, email_type = llm_type (item_type e),
             confidence = llm_confidence (item_confidence e),
             extracted_by = Ai\<rparr> # llm_candidates es sourceUrl)"

text \<open>
  \<open>extractEmailsWithLLM(pageText, sourceUrl, options)\<close>.  The request itself is outside the
  model: \<open>reply\<close> is the parsed \<open>emails\<close> array, \<open>None\<close> when the request fails, the
  content is missing or is not JSON, or \<open>emails\<close> is not an array (the function then
  returns the empty list).
\<close>

definition extractEmailsWithLLM ::
  "string \<Rightarrow> string \<Rightarrow> bool \<Rightarrow> nat \<Rightarrow> llm_item list option \<Rightarrow> candidate list" where
  "extractEmailsWithLLM pageText sourceUrl hasKey maxChars reply =
     (if \<not> hasKey then []
      else if trim (take maxChars pageText) = [] then []
      else (case reply of None \<Rightarrow> [] | Some items \<Rightarrow> llm_candidates items sourceUrl))"

subsection \<open>Merge\<close>

text \<open>
  A JavaScript \<open>Map\<close> keeps its keys in insertion order; \<open>set\<close> on a key that is present
  replaces the value where it stands, \<open>set\<close> on a new key appends.
\<close>

fun map_set :: "'k \<Rightarrow> 'v \<Rightarrow> ('k \<times> 'v) list \<Rightarrow> ('k \<times> 'v) list" where
  "map_set k v [] = [(k, v)]"
| "map_set k v ((k', v') # kvs) =
     (if k' = k then (k, v) # kvs else (k', v') # map_set k v kvs)"

definition map_get :: "('k \<times> 'v) list \<Rightarrow> 'k \<Rightarrow> 'v option" where
  "map_get m k = map_of m k"

definition map_values :: "('k \<times> 'v) list \<Rightarrow> 'v list" where
  "map_values m = map snd m"

text \<open>The body of the first loop of \<open>mergeEmailResults\<close>.\<close>

definition merge_regex :: "candidate \<Rightarrow> (string \<times> candidate) list \<Rightarrow> (string \<times> candidate) list"
  where
  "merge_regex r byEmail = map_set (email r) r byEmail"

text \<open>
  The body of the second loop.  The three assignments to the object \<open>existing\<close> are
  \<open>corroborate\<close>; the object is updated in place, which is a \<open>set\<close> of the updated value on
  a key that is present.
\<close>

definition corroborate :: "candidate \<Rightarrow> candidate \<Rightarrow> candidate" where
  "corroborate existing a =
     existing\<lparr>extracted_by := Both,
               confidence := max (confidence existing) (confidence a),
               email_type := (if email_type a \<noteq> Unknown then email_type a
                              else email_type existing)\<rparr>"

definition merge_ai :: "candidate \<Rightarrow> (string \<times> candidate) list \<Rightarrow> (string \<times> candidate) list"
  where
  "merge_ai a byEmail =
     (if \<not> isValidEmail (email a) \<or> isJunkPrefix (email a) then byEmail
      else (case map_get byEmail (email a) of
              Some existing \<Rightarrow> map_set (email a) (corroborate existing a) byEmail
            | None \<Rightarrow> map_set (email a) a byEmail))"

definition mergeEmailResults :: "candidate list \<Rightarrow> candidate list \<Rightarrow> candidate list" where
  "mergeEmailResults aiList regexList =
     map_values (fold merge_ai aiList (fold merge_regex regexList []))"

subsection \<open>Ranking\<close>

definition priorityOrder :: "string list" where
  "priorityOrder =
     [''info'', ''contact'', ''sales'', ''booking'', ''bookings'', ''reservations'',
      ''office'', ''hello'', ''enquiry'', ''enquiries'', ''support'']"

text \<open>The \<open>_priority\<close> that the \<open>map\<close> of \<open>pickBestEmails\<close> attaches to a candidate.\<close>

definition priority_of :: "candidate \<Rightarrow> nat" where
  "priority_of e =
     (let lcl = local_of (email e) in
      case indexOf priorityOrder lcl of
        Some i \<Rightarrow> i
      | None \<Rightarrow>
          (case findIndex (\<lambda>p. startsWith lcl p) priorityOrder of
             Some i \<Rightarrow> i
           | None \<Rightarrow> (if email_type e = Generic then 50 else 100)))"

text \<open>
  \<open>pickBestEmails(emails, maxPerDomain)\<close>.  \<open>Array.prototype.sort\<close> is a stable sort, and
  so is \<^const>\<open>sort_key\<close>; the count is a natural number.
\<close>

definition pickBestEmails :: "candidate list \<Rightarrow> nat \<Rightarrow> candidate list" where
  "pickBestEmails emails maxPerDomain =
     (let scored = map (\<lambda>e. (e, priority_of e)) emails
      in map fst (take maxPerDomain (sort_key snd scored)))"

subsection \<open>Extraction from the pages of a domain\<close>

text \<open>
  A fetched page, with what the components outside the model make of its HTML: the strings
  handed to \<open>push\<close>, the visible text (\<open>getVisibleText\<close>), and the reply of the language
  model when it is asked about this page.
\<close>

record page =
  url :: string
  html :: string
  found :: "string list"
  visible_text :: string
  llm_reply :: "llm_item list option"

record extract_options =
  enableAiExtract :: bool
  hasApiKey :: bool
  aiTextMaxChars :: nat
  maxEmailsPerDomain :: nat

text \<open>The list \<open>aiList\<close> that one page adds to \<open>allAi\<close>.\<close>

definition page_ai :: "extract_options \<Rightarrow> page \<Rightarrow> candidate list" where
  "page_ai opts p =
     (if enableAiExtract opts \<and> hasApiKey opts \<and> html p \<noteq> [] \<and> trim (visible_text p) \<noteq> []
      then extractEmailsWithLLM (visible_text p) (url p) (hasApiKey opts) (aiTextMaxChars opts)
             (llm_reply p)
      else [])"

definition extractEmailsFromPages :: "page list \<Rightarrow> extract_options \<Rightarrow> candidate list" where
  "extractEmailsFromPages pages opts =
     (let allRegex = concat (map (\<lambda>p. extractEmailsRegex (found p) (url p)) pages);
          allAi = concat (map (page_ai opts) pages);
          merged = mergeEmailResults allAi allRegex
      in pickBestEmails merged (maxEmailsPerDomain opts))"

subsection \<open>Notions used to state the properties of the merge\<close>

text \<open>The guard of the second loop: the candidate is not skipped by \<open>continue\<close>.\<close>

definition accepted :: "candidate \<Rightarrow> bool" where
  "accepted a = (isValidEmail (email a) \<and> \<not> isJunkPrefix (email a))"

text \<open>The map is keyed by the address of its values, each key once.\<close>

definition keyed :: "(string \<times> candidate) list \<Rightarrow> bool" where
  "keyed m = (distinct (map fst m) \<and> list_all (\<lambda>kv. email (snd kv) = fst kv) m)"

text \<open>One candidate of the language model folded into what stands under its key.\<close>

definition fold_in :: "candidate option \<Rightarrow> candidate \<Rightarrow> candidate option" where
  "fold_in acc a = Some (case acc of None \<Rightarrow> a | Some ex \<Rightarrow> corroborate ex a)"

subsection \<open>Inputs of the worked examples\<close>

text \<open>
  A home page on which the regex path finds two addresses (one of them with a junk prefix)
  and the language model reports three (one with a junk prefix, one with a fused top-level
  label).
\<close>

definition example_page :: page where
  "example_page =
     \<lparr>url = ''https://site.com/'', html = ''<html>'',
      found = [''Info@Site.com '', ''admin@site.com''],
      visible_text = ''Contact us'',
      llm_reply = Some
        [\<lparr>item_email = '' SALES@site.com'', item_type = ''Generic'',
            item_confidence = Some (19 / 20)\<rparr>,
         \<lparr>item_email = ''privacy@site.com'', item_type = ''generic'',
            item_confidence = Some 1\<rparr>,
         \<lparr>item_email = ''info@site.comphone'', item_type = [],
            item_confidence = None\<rparr>]\<rparr>"

definition example_options :: extract_options where
  "example_options =
     \<lparr>enableAiExtract = True, hasApiKey = True, aiTextMaxChars = 4000,
      maxEmailsPerDomain = 5\<rparr>"

text \<open>A regex candidate and candidates of the language model for addresses of one site.\<close>

definition regex_candidate :: "string \<Rightarrow> candidate" where
  "regex_candidate e =
     \<lparr>email = e, source_url = ''https://site.com/'',
      email_type = (if isGeneric e then Generic else Personal),
      confidence = 9 / 10, extracted_by = Regex\<rparr>"

definition ai_candidate :: "string \<Rightarrow> string \<Rightarrow> email_kind \<Rightarrow> real \<Rightarrow> candidate" where
  "ai_candidate e u k c =
     \<lparr>email = e, source_url = u, email_type = k, confidence = c, extracted_by = Ai\<rparr>"

text \<open>Eight candidates of one site, in the order in which they were met.\<close>

definition eight_candidates :: "candidate list" where
  "eight_candidates =
     map regex_candidate
       [''joe@site.com'', ''support@site.com'', ''sales@site.com'', ''booking-team@site.com'',
        ''info@site.com'', ''ann@site.com'', ''reservation@site.com'', ''contact@site.com'']"

section \<open>Relevance scoring (src/extract/scoreRelevance.js, lines 1--32)\<close>

definition TURKEY_TERMS :: "string list" where
  "TURKEY_TERMS = [''turkey'', ''t'' @ [CHR 0xFC] @ ''rkiye'']"

definition DESTINATION_TERMS :: "string list" where
  "DESTINATION_TERMS =
     [''antalya'', ''istanbul'', ''cappadocia'', ''pamukkale'', ''ephesus'', ''bodrum'']"

record relevance =
  relevanceScore :: int
  matchedTerms :: "string list"

text \<open>The body of the loop over \<open>DESTINATION_TERMS\<close>, on the pair of \<open>score\<close> and \<open>matched\<close>.\<close>

definition score_destination :: "string \<Rightarrow> string \<Rightarrow> int \<times> string list \<Rightarrow> int \<times> string list"
  where
  "score_destination text term sm =
     (if str_includes text term then (fst sm + 1, snd sm @ [term]) else sm)"

definition scoreRelevance :: "string \<Rightarrow> string list \<Rightarrow> relevance" where
  "scoreRelevance combinedText unrelatedKeywords =
     (let text = toLowerCase combinedText;
          sm0 = (if \<exists>t \<in> set TURKEY_TERMS. str_includes text t
                 then (2, [''Turkey/T'' @ [CHR 0xFC] @ ''rkiye''])
                 else (0, []));
          sm1 = fold (score_destination text) DESTINATION_TERMS sm0;
          block = map toLowerCase unrelatedKeywords;
          sm2 = (if \<exists>k \<in> set block. str_includes text k
                 then (fst sm1 - 2, snd sm1 @ [''unrelated''])
                 else sm1)
      in \<lparr>relevanceScore = fst sm2, matchedTerms = snd sm2\<rparr>)"

section \<open>The region filter (normalizeDomain.js: src/unnamed/part_003, lines 93--117)\<close>

definition TURKEY_TLDS :: "string list" where
  "TURKEY_TLDS = [''.com.tr'', ''.org.tr'', ''.net.tr'', ''.gov.tr'', ''.edu.tr'', ''.bel.tr'']"

definition TURKEY_DOMAIN_HINTS :: "string list" where
  "TURKEY_DOMAIN_HINTS =
     [''turkey'', ''turkiye'', ''turco'', ''turk'', ''turkish'',
      ''istanbul'', ''antalya'', ''cappadocia'', ''kapadokya'',
      ''bodrum'', ''ephesus'', ''efes'', ''pamukkale'', ''goreme'',
      ''fethiye'', ''marmaris'', ''kusadasi'', ''alanya'', ''kemer'',
      ''belek'', ''dalyan'', ''oludeniz'', ''tursab'']"

definition isTurkeyBasedDomain :: "string \<Rightarrow> bool" where
  "isTurkeyBasedDomain dmn =
     (if dmn = [] then False
      else (let d = toLowerCase dmn in
            if \<exists>t \<in> set TURKEY_TLDS. endsWith d t then True
            else if \<exists>h \<in> set TURKEY_DOMAIN_HINTS. str_includes d h then True
            else False))"

section \<open>The streaming extractor (src/extract/scoreRelevance.js, lines 309--526)\<close>

text \<open>
  A domain record as the discovery sources and the snowball step build it.  The dedup key is
  the string \<open>domain\<close>, compared as it stands; a record whose \<open>domain\<close> is empty (for which
  \<open>rec.domain || rec\<close> is the record itself) is outside the model.
\<close>

record domain_record =
  domain :: string
  sampleUrl :: string
  queryUsed :: string
  title :: string
  snippet :: string
  country :: string
  city :: string

text \<open>A call \<open>processOne(rec, depth)\<close> wrapped by \<open>limit\<close> and pushed on \<open>pendingTasks\<close>.\<close>

record task =
  rec :: domain_record
  depth :: nat

text \<open>
  A task waits in the queue of the limiter, is suspended in \<open>await crawlDomain\<close>, or has
  returned.
\<close>

datatype status = Queued | InFlight | Done

record lead_row =
  business_name :: string
  row_domain :: string
  row_country :: string
  row_city :: string
  row_email :: string
  row_email_type :: email_kind
  row_confidence :: real
  relevance_score :: int
  row_source_url :: string
  discovered_by_query :: string

record config =
  minScore :: int
  unrelatedKeywords :: "string list"
  extraction :: extract_options
  snowballEnabled :: bool
  snowballMaxDepth :: nat
  snowballMaxPerSource :: nat

text \<open>
  The variables that the closures of \<open>createStreamingExtractor\<close> share.  \<open>tasks\<close> is
  \<open>pendingTasks\<close>, every task with its status; \<open>crawls\<close> records the calls of
  \<open>crawlDomain\<close> in the order in which they are made (it is not a variable of the program);
  \<open>skipped\<close> and \<open>errors\<close> are the two lists of the run log, \<open>snowballDomains\<close> its
  counter.
\<close>

record extractor_state =
  processedDomains :: "string set"
  tasks :: "(task \<times> status) list"
  crawls :: "string list"
  skipped :: "(string \<times> string) list"
  errors :: "(string \<times> string) list"
  snowballDomains :: nat
  allRows :: "lead_row list"

definition initial_state :: extractor_state where
  "initial_state =
     \<lparr>processedDomains = {}, tasks = [], crawls = [], skipped = [], errors = [],
      snowballDomains = 0, allRows = []\<rparr>"

text \<open>\<open>addDomain(rec)\<close>\<close>

definition addDomain :: "domain_record \<Rightarrow> extractor_state \<Rightarrow> extractor_state" where
  "addDomain r s =
     (if domain r \<in> processedDomains s then s
      else s\<lparr>tasks := tasks s @ [(\<lparr>rec = r, depth = 0\<rparr>, Queued)]\<rparr>)"

text \<open>
  What the crawl of a domain hands back to \<open>processOne\<close>: an exception with its message, or
  the pages together with what the two HTML-reading helpers make of them, the list of
  \<open>extractOutboundTravelDomains(pages, domain)\<close> and the name of
  \<open>extractBusinessName(pages)\<close>.
\<close>

datatype crawl_result =
    CrawlThrows string
  | Crawled "page list" "string list" string

text \<open>
  \<open>processOne\<close> up to its first suspension, for the task at position \<open>i\<close>: the check and
  the marking of the domain, the region filter, and the call of \<open>crawlDomain\<close>.  JavaScript
  runs this stretch without interruption.
\<close>

definition set_status :: "nat \<Rightarrow> status \<Rightarrow> extractor_state \<Rightarrow> extractor_state" where
  "set_status i st s = s\<lparr>tasks := (tasks s)[i := (fst (tasks s ! i), st)]\<rparr>"

definition processOne_start :: "nat \<Rightarrow> extractor_state \<Rightarrow> extractor_state" where
  "processOne_start i s =
     (let d = domain (rec (fst (tasks s ! i))) in
      if d \<in> processedDomains s then set_status i Done s
      else
        (let s1 = s\<lparr>processedDomains := insert d (processedDomains s)\<rparr> in
         if isTurkeyBasedDomain d
         then set_status i Done (s1\<lparr>skipped := skipped s1 @ [(d, ''turkey-based domain'')]\<rparr>)
         else set_status i InFlight (s1\<lparr>crawls := crawls s1 @ [d]\<rparr>)))"

text \<open>The record that the snowball step builds for a new domain.\<close>

definition snowRec :: "string \<Rightarrow> string \<Rightarrow> domain_record" where
  "snowRec sd d =
     \<lparr>domain = sd, sampleUrl = ''https://'' @ sd, queryUsed = ''snowball:'' @ d,
      title = [], snippet = ''Discovered via partner link on '' @ d,
      country = [], city = []\<rparr>"

text \<open>The body of the loop over \<open>added\<close>.\<close>

definition enqueue_snowball :: "string \<Rightarrow> nat \<Rightarrow> string \<Rightarrow> extractor_state \<Rightarrow> extractor_state"
  where
  "enqueue_snowball d dep sd s =
     (if sd \<notin> processedDomains s
      then s\<lparr>snowballDomains := snowballDomains s + 1,
             tasks := tasks s @ [(\<lparr>rec = snowRec sd d, depth = dep + 1\<rparr>, Queued)]\<rparr>
      else s)"

definition snowball :: "config \<Rightarrow> string \<Rightarrow> nat \<Rightarrow> string list \<Rightarrow> extractor_state \<Rightarrow> extractor_state"
  where
  "snowball cfg d dep newDomains s =
     (if snowballEnabled cfg \<and> dep < snowballMaxDepth cfg
      then (let added = take (snowballMaxPerSource cfg)
                          (filter (\<lambda>sd. \<not> isTurkeyBasedDomain sd) newDomains)
            in fold (enqueue_snowball d dep) added s)
      else s)"

text \<open>\<open>xs.join(' ')\<close>\<close>

fun join_space :: "string list \<Rightarrow> string" where
  "join_space [] = []"
| "join_space [x] = x"
| "join_space (x # y # ys) = x @ '' '' @ join_space (y # ys)"

definition lead_rows ::
  "string \<Rightarrow> domain_record \<Rightarrow> int \<Rightarrow> candidate list \<Rightarrow> lead_row list" where
  "lead_rows businessName r score emails =
     map (\<lambda>e. \<lparr>business_name = businessName, row_domain = domain r, row_country = country r,
                row_city = city r, row_email = email e, row_email_type = email_type e,
                row_confidence = confidence e, relevance_score = score,
                row_source_url = source_url e, discovered_by_query = queryUsed r\<rparr>) emails"

text \<open>
  The options that \<open>processOne\<close> hands to \<open>extractEmailsFromPages\<close>.  They name no
  \<open>maxEmailsPerDomain\<close>, so the default of five applies.
\<close>

definition extractOptions :: "config \<Rightarrow> extract_options" where
  "extractOptions cfg = (extraction cfg)\<lparr>maxEmailsPerDomain := 5\<rparr>"

text \<open>
  \<open>processOne\<close> from the return of \<open>crawlDomain\<close> on, for the task at position \<open>i\<close>.  The
  later suspension points (the extraction and the appends to the files) come after the last
  access to the processed set and to the task list, and the stretch is taken as one step;
  a failure of those appends is not modelled.
\<close>

definition processOne_resume ::
  "config \<Rightarrow> nat \<Rightarrow> crawl_result \<Rightarrow> extractor_state \<Rightarrow> extractor_state" where
  "processOne_resume cfg i res s =
     (let t = fst (tasks s ! i); d = domain (rec t) in
      case res of
        CrawlThrows msg \<Rightarrow> set_status i Done (s\<lparr>errors := errors s @ [(d, msg)]\<rparr>)
      | Crawled pages newDomains businessName \<Rightarrow>
          if pages = []
          then set_status i Done (s\<lparr>skipped := skipped s @ [(d, ''no pages fetched'')]\<rparr>)
          else
            (let s1 = snowball cfg d (depth t) newDomains s;
                 emails = extractEmailsFromPages pages (extractOptions cfg);
                 score = relevanceScore
                           (scoreRelevance (join_space (map html pages)) (unrelatedKeywords cfg))
             in
               if score < minScore cfg
               then set_status i Done
                      (s1\<lparr>skipped := skipped s1 @ [(d, ''score below threshold'')]\<rparr>)
               else set_status i Done
                      (s1\<lparr>allRows := allRows s1 @ lead_rows businessName (rec t) score emails\<rparr>)))"

text \<open>
  What can happen to the extractor: a source submits a record, the limiter starts a queued
  task, the crawl of a task in flight returns.  The limiter is free to start any queued task
  and to keep any number in flight, which covers every order and every bound of the real
  one; an event that does not apply (no such task, or the task in another status) changes
  nothing.
\<close>

datatype event =
    Submit domain_record
  | Start nat
  | CrawlReturns nat crawl_result

definition has_status :: "extractor_state \<Rightarrow> nat \<Rightarrow> status \<Rightarrow> bool" where
  "has_status s i st = (i < length (tasks s) \<and> snd (tasks s ! i) = st)"

fun step :: "config \<Rightarrow> event \<Rightarrow> extractor_state \<Rightarrow> extractor_state" where
  "step cfg (Submit r) s = addDomain r s"
| "step cfg (Start i) s = (if has_status s i Queued then processOne_start i s else s)"
| "step cfg (CrawlReturns i res) s =
     (if has_status s i InFlight then processOne_resume cfg i res s else s)"

definition run :: "config \<Rightarrow> event list \<Rightarrow> extractor_state \<Rightarrow> extractor_state" where
  "run cfg evs s = fold (step cfg) evs s"

text \<open>The invariant of the extractor: no domain is crawled twice, and every crawled domain is marked.\<close>

definition crawl_once :: "extractor_state \<Rightarrow> bool" where
  "crawl_once s = (distinct (crawls s) \<and> list_all (\<lambda>d. d \<in> processedDomains s) (crawls s))"

subsection \<open>Inputs of the worked examples\<close>

definition discovered :: "string \<Rightarrow> domain_record" where
  "discovered d =
     \<lparr>domain = d, sampleUrl = ''https://'' @ d @ ''/'', queryUsed = ''tour operators'',
      title = [], snippet = [], country = [], city = []\<rparr>"

definition example_config :: config where
  "example_config =
     \<lparr>minScore = 2, unrelatedKeywords = [''casino''], extraction = example_options,
      snowballEnabled = True, snowballMaxDepth = 1, snowballMaxPerSource = 10\<rparr>"

text \<open>A page whose text names the core region and one destination.\<close>

definition turkey_page :: page where
  "turkey_page =
     \<lparr>url = ''https://tours.example/'', html = ''<h1>Tours to Turkey: Antalya</h1>'',
      found = [''info@tours.example''], visible_text = ''Tours to Turkey: Antalya'',
      llm_reply = None\<rparr>"

text \<open>
  A run in which one domain is submitted three times (twice before its task starts, once
  while it is in flight) and is found once more by the snowball step of its own crawl.
\<close>

definition example_run :: "event list" where
  "example_run =
     [Submit (discovered ''tours.example''), Submit (discovered ''tours.example''), Start 0,
      Submit (discovered ''tours.example''), Start 1,
      CrawlReturns 0 (Crawled [turkey_page] [''tours.example'', ''peer-travel.example'']
        ''Tours''),
      Start 2, Submit (discovered ''peer-travel.example''),
      CrawlReturns 2 (CrawlThrows ''timeout'')]"

text \<open>Fifteen peer domains found on the pages of one site.\<close>

definition fifteen_peers :: "string list" where
  "fifteen_peers =
     [''peer-a.example'', ''peer-b.example'', ''peer-c.example'', ''peer-d.example'',
      ''peer-e.example'', ''peer-f.example'', ''peer-g.example'', ''peer-h.example'',
      ''peer-i.example'', ''peer-j.example'', ''peer-k.example'', ''peer-l.example'',
      ''peer-m.example'', ''peer-n.example'', ''peer-o.example'']"

section \<open>Page fetch with retry (src/extract/crawlDomain.js, lines 40--67)\<close>

text \<open>
  What \<open>throw lastErr\<close> throws: the variable is \<open>undefined\<close> until an attempt has failed.
\<close>

datatype 'e thrown = Undefined | Caught 'e

text \<open>The effects of the function, in the order in which they happen.\<close>

datatype io = Get string nat | Sleep nat

text \<open>\<open>delays[i]\<close>: \<open>None\<close> is \<open>null\<close> or, past the end of the array, \<open>undefined\<close>.\<close>

definition delay_at :: "nat option list \<Rightarrow> nat \<Rightarrow> nat option" where
  "delay_at delays i = (if i < length delays then delays ! i else None)"

text \<open>The sleep in the \<open>catch\<close> block after the failed attempt \<open>i\<close>.\<close>

definition backoff :: "nat \<Rightarrow> nat option list \<Rightarrow> nat \<Rightarrow> io list" where
  "backoff retries delays i =
     (if Suc i < retries \<and> delay_at delays i \<noteq> None then [Sleep (the (delay_at delays i))]
      else [])"

text \<open>
  The \<open>for\<close> loop of \<open>fetchWithRetry\<close> from the counter \<open>i\<close> on.  \<open>get u i\<close> is what the
  call of \<open>axios.get\<close> in iteration \<open>i\<close> comes to: the body, or the exception it throws.
  \<open>retries\<close> is a natural number.
\<close>

function fetch_loop ::
  "(string \<Rightarrow> nat \<Rightarrow> 'e + string) \<Rightarrow> string \<Rightarrow> nat \<Rightarrow> nat option list \<Rightarrow>
   nat \<Rightarrow> 'e thrown \<Rightarrow> io list \<Rightarrow> ('e thrown + string) \<times> io list" where
  "fetch_loop get u retries delays i lastErr trace =
     (if i < retries
      then (case get u i of
              Inr data \<Rightarrow> (Inr data, trace @ [Get u i])
            | Inl err \<Rightarrow>
                fetch_loop get u retries delays (Suc i) (Caught err)
                  (trace @ [Get u i] @ backoff retries delays i))
      else (Inl lastErr, trace))"
  by pat_completeness auto
termination
  by (relation "measure (\<lambda>(get, u, retries, delays, i, lastErr, trace). retries - i)") auto

declare fetch_loop.simps [simp del]

definition fetchWithRetry ::
  "(string \<Rightarrow> nat \<Rightarrow> 'e + string) \<Rightarrow> string \<Rightarrow> nat \<Rightarrow> nat option list \<Rightarrow>
   ('e thrown + string) \<times> io list" where
  "fetchWithRetry get u retries delays = fetch_loop get u retries delays 0 Undefined []"

text \<open>The effects of one failed attempt.\<close>

definition failed_attempt :: "string \<Rightarrow> nat \<Rightarrow> nat option list \<Rightarrow> nat \<Rightarrow> io list" where
  "failed_attempt u retries delays i = Get u i # backoff retries delays i"

definition is_get :: "io \<Rightarrow> bool" where
  "is_get x = (case x of Get _ _ \<Rightarrow> True | Sleep _ \<Rightarrow> False)"

text \<open>Two servers for the worked examples: one that answers at the third attempt, one that never does.\<close>

definition flaky :: "string \<Rightarrow> nat \<Rightarrow> string + string" where
  "flaky u i = (if i < 2 then Inl ''ECONNRESET'' else Inr ''<html>'')"

definition unreachable :: "string \<Rightarrow> nat \<Rightarrow> string + string" where
  "unreachable u i = Inl ''ECONNRESET''"

section \<open>Properties\<close>

subsection \<open>Email validation\<close>

text \<open>What an accepted address says about the labels of its domain.\<close>

lemma split_at_not_Nil: "split_at sep s \<noteq> []"
  by (cases s) (simp_all split: list.splits)

lemma isValidEmail_tld:
  assumes "isValidEmail e"
  shows "domain_labels e \<noteq> [] \<and>
         \<not> (6 < length (last (domain_labels e)) \<and>
            (\<exists>p \<in> set COMMON_TLD_PREFIXES.
               startsWith (last (domain_labels e)) p \<and>
               length p < length (last (domain_labels e)))) \<and>
         2 \<le> length (last (domain_labels e)) \<and> all_letters (last (domain_labels e)) \<and>
         \<not> (2 \<le> length (domain_labels e) \<and>
            tld_junk_pattern (domain_labels e ! (length (domain_labels e) - 2))
              (last (domain_labels e)) \<and>
            length (last (domain_labels e)) \<le> 4 \<and>
            toLowerCase (last (domain_labels e)) \<notin> set realCcTlds)"
proof (cases "split_at CHR ''@'' e")
  case Nil
  with assms show ?thesis by (simp add: isValidEmail_def)
next
  case outer: (Cons lcl r)
  show ?thesis
  proof (cases r)
    case Nil
    with outer assms show ?thesis by (simp add: isValidEmail_def)
  next
    case (Cons dmn rest)
    with outer have sp: "split_at CHR ''@'' e = lcl # dmn # rest"
      by simp
    have dl: "domain_labels e = split_at CHR ''.'' dmn"
      by (simp add: domain_labels_def sp)
    from assms show ?thesis
      unfolding isValidEmail_def sp dl Let_def list.case
      by (simp add: split_at_not_Nil split: if_splits)
  qed
qed

text \<open>
  C5.  \<open>isValidEmail\<close> accepts \<open>info@site.com\<close> and \<open>sales@site.com.tr\<close> and rejects
  \<open>info@site.comphone\<close> and \<open>office@site.com.you\<close>.  In general, an address is rejected
  when its last label is longer than six characters and properly extends one of the common
  top-level prefixes, and when its second-last label is one of com, net, org, co, travel,
  tours (in any case) while its last label has at most four characters and is not one of the
  listed country codes.  Every listed country code has two letters and is accepted after
  \<open>.com\<close>.
\<close>

theorem isValidEmail_boundary:
  "isValidEmail ''info@site.com'' \<and> isValidEmail ''sales@site.com.tr'' \<and>
   \<not> isValidEmail ''info@site.comphone'' \<and> \<not> isValidEmail ''office@site.com.you'' \<and>
   (\<forall>e. 6 < length (last (domain_labels e)) \<and>
        (\<exists>p \<in> set COMMON_TLD_PREFIXES.
           startsWith (last (domain_labels e)) p \<and> length p < length (last (domain_labels e)))
        \<longrightarrow> \<not> isValidEmail e) \<and>
   (\<forall>e. 2 \<le> length (domain_labels e) \<and>
        toLowerCase (domain_labels e ! (length (domain_labels e) - 2))
          \<in> set SECOND_LEVEL_WORDS \<and>
        length (last (domain_labels e)) \<le> 4 \<and>
        toLowerCase (last (domain_labels e)) \<notin> set realCcTlds
        \<longrightarrow> \<not> isValidEmail e) \<and>
   list_all (\<lambda>cc. length cc = 2 \<and> isValidEmail (''sales@site.com.'' @ cc)) realCcTlds"
proof -
  have a: "isValidEmail ''info@site.com''" by code_simp
  have b: "isValidEmail ''sales@site.com.tr''" by code_simp
  have c: "\<not> isValidEmail ''info@site.comphone''" by code_simp
  have d: "\<not> isValidEmail ''office@site.com.you''" by code_simp
  have g1: "\<not> isValidEmail e"
    if "6 < length (last (domain_labels e)) \<and>
        (\<exists>p \<in> set COMMON_TLD_PREFIXES.
           startsWith (last (domain_labels e)) p \<and> length p < length (last (domain_labels e)))"
    for e
    using that isValidEmail_tld [of e] by blast
  have g2: "\<not> isValidEmail e"
    if h: "2 \<le> length (domain_labels e) \<and>
        toLowerCase (domain_labels e ! (length (domain_labels e) - 2))
          \<in> set SECOND_LEVEL_WORDS \<and>
        length (last (domain_labels e)) \<le> 4 \<and>
        toLowerCase (last (domain_labels e)) \<notin> set realCcTlds"
    for e
  proof
    assume v: "isValidEmail e"
    from isValidEmail_tld [OF v]
    have len: "2 \<le> length (last (domain_labels e))"
      and ltr: "all_letters (last (domain_labels e))"
      and no: "\<not> (2 \<le> length (domain_labels e) \<and>
            tld_junk_pattern (domain_labels e ! (length (domain_labels e) - 2))
              (last (domain_labels e)) \<and>
            length (last (domain_labels e)) \<le> 4 \<and>
            toLowerCase (last (domain_labels e)) \<notin> set realCcTlds)"
      by blast+
    from h len ltr
    have "tld_junk_pattern (domain_labels e ! (length (domain_labels e) - 2))
            (last (domain_labels e))"
      by (simp add: tld_junk_pattern_def all_letters_def)
    with h no show False by blast
  qed
  have f: "list_all (\<lambda>cc. length cc = 2 \<and> isValidEmail (''sales@site.com.'' @ cc)) realCcTlds"
    by code_simp
  show ?thesis
    using a b c d f g1 g2 by blast
qed

theorem isValidEmail_boundary_witness:
  "domain_labels ''info@site.travelagency'' = [''site'', ''travelagency''] \<and>
   startsWith ''travelagency'' ''travel'' \<and>
   \<not> isValidEmail ''info@site.travelagency'' \<and>
   domain_labels ''office@site.CO.name'' = [''site'', ''CO'', ''name''] \<and>
   \<not> isValidEmail ''office@site.CO.name''"
proof -
  have l1: "domain_labels ''info@site.travelagency'' = [''site'', ''travelagency'']"
    by code_simp
  have s1: "startsWith ''travelagency'' ''travel''" by code_simp
  have p1: "6 < length (last (domain_labels ''info@site.travelagency'')) \<and>
        (\<exists>p \<in> set COMMON_TLD_PREFIXES.
           startsWith (last (domain_labels ''info@site.travelagency'')) p \<and>
           length p < length (last (domain_labels ''info@site.travelagency'')))"
    by code_simp
  have l2: "domain_labels ''office@site.CO.name'' = [''site'', ''CO'', ''name'']"
    by code_simp
  have p2: "2 \<le> length (domain_labels ''office@site.CO.name'') \<and>
        toLowerCase (domain_labels ''office@site.CO.name'' !
                       (length (domain_labels ''office@site.CO.name'') - 2))
          \<in> set SECOND_LEVEL_WORDS \<and>
        length (last (domain_labels ''office@site.CO.name'')) \<le> 4 \<and>
        toLowerCase (last (domain_labels ''office@site.CO.name'')) \<notin> set realCcTlds"
    by code_simp
  from isValidEmail_boundary p1 have r1: "\<not> isValidEmail ''info@site.travelagency''"
    by blast
  from isValidEmail_boundary p2 have r2: "\<not> isValidEmail ''office@site.CO.name''"
    by blast
  show ?thesis using l1 s1 r1 l2 r2 by blast
qed

subsection \<open>Normalisation\<close>

lemma lower_char_idem: "lower_char (lower_char x) = lower_char x"
  by (auto simp: lower_char_def Let_def)

lemma is_space_lower_char: "is_space (lower_char x) = is_space x"
  by (auto simp: lower_char_def is_space_def Let_def)

lemma toLowerCase_idem: "toLowerCase (toLowerCase s) = toLowerCase s"
  by (simp add: toLowerCase_def lower_char_idem)

lemma set_trim: "set (trim s) \<subseteq> set s"
proof
  fix x assume "x \<in> set (trim s)"
  then have "x \<in> set (dropWhile is_space (rev (dropWhile is_space s)))"
    by (simp add: trim_def)
  then have "x \<in> set (rev (dropWhile is_space s))" by (rule set_dropWhileD)
  then have "x \<in> set (dropWhile is_space s)" by simp
  then show "x \<in> set s" by (rule set_dropWhileD)
qed

lemma toLowerCase_fixed: "(\<forall>c \<in> set s. lower_char c = c) \<Longrightarrow> toLowerCase s = s"
  by (simp add: toLowerCase_def map_idI)

lemma toLowerCase_trim: "toLowerCase (trim (toLowerCase s)) = trim (toLowerCase s)"
proof (rule toLowerCase_fixed, rule ballI)
  fix c assume "c \<in> set (trim (toLowerCase s))"
  with set_trim have "c \<in> set (toLowerCase s)" by blast
  then show "lower_char c = c"
    by (auto simp: toLowerCase_def lower_char_idem)
qed

lemma dropWhile_rev_dropWhile:
  "dropWhile P (rev (dropWhile P (rev (dropWhile P s)))) = rev (dropWhile P (rev (dropWhile P s)))"
proof -
  let ?y = "dropWhile P s"
  let ?z = "rev (dropWhile P (rev ?y))"
  show "dropWhile P ?z = ?z"
  proof (cases "?z = []")
    case True
    show ?thesis by (simp only: True dropWhile.simps)
  next
    case False
    have yne: "?y \<noteq> []"
    proof
      assume e: "?y = []"
      have "?z = []" unfolding e by simp
      with False show False by contradiction
    qed
    then have hy: "\<not> P (hd ?y)" by (rule hd_dropWhile)
    have "\<exists>t. ?y = ?z @ t"
      by (metis rev_append rev_rev_ident takeWhile_dropWhile_id)
    then obtain t where "?y = ?z @ t" ..
    with False have "hd ?z = hd ?y" by (metis hd_append2)
    with hy False show ?thesis by (simp add: dropWhile_eq_self_iff)
  qed
qed

lemma trim_idem: "trim (trim s) = trim s"
proof -
  let ?z = "rev (dropWhile is_space (rev (dropWhile is_space s)))"
  have a: "dropWhile is_space ?z = ?z" by (rule dropWhile_rev_dropWhile)
  have b: "dropWhile is_space (rev ?z) = rev ?z"
    by (simp add: dropWhile_eq_self_iff hd_dropWhile)
  show ?thesis
    unfolding trim_def [of "trim s"] unfolding trim_def [of s] a b by simp
qed

lemma normalizeEmail_idem: "normalizeEmail (normalizeEmail e) = normalizeEmail e"
  by (simp add: normalizeEmail_def toLowerCase_trim trim_idem)

lemma normalizeEmail_parts:
  "normalizeEmail e = e \<longleftrightarrow> toLowerCase e = e \<and> trim e = e"
  by (metis normalizeEmail_def toLowerCase_trim trim_idem)

subsection \<open>The map of the merge\<close>

lemma map_of_map_set: "map_of (map_set k v m) = (map_of m)(k \<mapsto> v)"
  by (induction k v m rule: map_set.induct) (auto simp: fun_eq_iff)

lemma set_map_set: "set (map_set k v m) \<subseteq> insert (k, v) (set m)"
  by (induction k v m rule: map_set.induct) auto

lemma fst_set_map_set: "fst ` set (map_set k v m) = insert k (fst ` set m)"
  by (induction k v m rule: map_set.induct) auto

lemma distinct_map_set: "distinct (map fst m) \<Longrightarrow> distinct (map fst (map_set k v m))"
  by (induction k v m rule: map_set.induct) (auto simp: fst_set_map_set)

lemma keyed_map_set: "keyed m \<Longrightarrow> email v = k \<Longrightarrow> keyed (map_set k v m)"
  unfolding keyed_def
  using set_map_set [of k v m]
  by (auto simp: distinct_map_set list_all_iff)

lemma email_corroborate: "email (corroborate ex a) = email ex"
  by (simp add: corroborate_def)

lemma keyed_merge_regex: "keyed m \<Longrightarrow> keyed (merge_regex r m)"
  by (simp add: merge_regex_def keyed_map_set)

lemma keyed_map_of: "keyed m \<Longrightarrow> map_of m k = Some v \<Longrightarrow> email v = k"
  by (auto simp: keyed_def list_all_iff dest: map_of_SomeD)

lemma keyed_merge_ai: "keyed m \<Longrightarrow> keyed (merge_ai a m)"
  by (auto simp: merge_ai_def map_get_def keyed_map_set email_corroborate keyed_map_of
      split: option.splits)

lemma keyed_fold_regex: "keyed m \<Longrightarrow> keyed (fold merge_regex R m)"
  by (induction R arbitrary: m) (simp_all add: keyed_merge_regex)

lemma keyed_fold_ai: "keyed m \<Longrightarrow> keyed (fold merge_ai A m)"
  by (induction A arbitrary: m) (simp_all add: keyed_merge_ai)

lemma keyed_filter:
  "keyed m \<Longrightarrow>
   filter (\<lambda>c. email c = e) (map_values m) = (case map_of m e of None \<Rightarrow> [] | Some v \<Rightarrow> [v])"
proof (induction m)
  case Nil
  then show ?case by (simp add: map_values_def)
next
  case (Cons kv m)
  obtain k v where kv: "kv = (k, v)" by (cases kv)
  from Cons.prems have km: "keyed m" and ev: "email v = k" and nk: "k \<notin> fst ` set m"
    by (auto simp: keyed_def kv)
  from nk have none: "map_of m k = None"
    by (simp add: map_of_eq_None_iff)
  show ?case
  proof (cases "k = e")
    case True
    with none km have "filter (\<lambda>c. email c = e) (map_values m) = []"
      using Cons.IH by simp
    with True ev show ?thesis by (simp add: kv map_values_def)
  next
    case False
    with ev Cons.IH [OF km] show ?thesis by (simp add: kv map_values_def)
  qed
qed

text \<open>What the first loop leaves under a key.\<close>

lemma lookup_merge_regex:
  "map_of (merge_regex r m) e = (if email r = e then Some r else map_of m e)"
  by (simp add: merge_regex_def map_of_map_set)

lemma lookup_fold_regex:
  "map_of (fold merge_regex R m) e =
     (case filter (\<lambda>r. email r = e) R of [] \<Rightarrow> map_of m e | r # rs \<Rightarrow> Some (last (r # rs)))"
proof (induction R arbitrary: m)
  case Nil
  show ?case by simp
next
  case (Cons r R)
  have "map_of (fold merge_regex (r # R) m) e = map_of (fold merge_regex R (merge_regex r m)) e"
    by simp
  also have "\<dots> = (case filter (\<lambda>r. email r = e) R of
                      [] \<Rightarrow> map_of (merge_regex r m) e | r # rs \<Rightarrow> Some (last (r # rs)))"
    by (rule Cons.IH)
  also have "\<dots> = (case filter (\<lambda>r. email r = e) (r # R) of
                      [] \<Rightarrow> map_of m e | r # rs \<Rightarrow> Some (last (r # rs)))"
    by (simp add: lookup_merge_regex split: list.splits)
  finally show ?case .
qed

text \<open>What the second loop leaves under a key.\<close>

lemma lookup_merge_ai:
  "map_of (merge_ai a m) e =
     (if email a = e \<and> accepted a then fold_in (map_of m e) a else map_of m e)"
  by (auto simp: merge_ai_def accepted_def map_get_def map_of_map_set fold_in_def
      split: option.splits)

lemma lookup_fold_ai:
  "map_of (fold merge_ai A m) e =
     foldl fold_in (map_of m e) (filter (\<lambda>a. email a = e \<and> accepted a) A)"
  by (induction A arbitrary: m) (simp_all add: lookup_merge_ai)

lemma foldl_fold_in_Some:
  "foldl fold_in (Some r) As = Some (foldl corroborate r As)"
  by (induction As arbitrary: r) (simp_all add: fold_in_def)

lemma email_type_foldl_corroborate:
  "email_type (foldl corroborate r As) =
     (case filter (\<lambda>a. email_type a \<noteq> Unknown) As of
        [] \<Rightarrow> email_type r | t # ts \<Rightarrow> email_type (last (t # ts)))"
proof (induction As rule: rev_induct)
  case Nil
  show ?case by simp
next
  case (snoc a As)
  then show ?case by (simp add: corroborate_def split: list.splits)
qed

lemma extracted_by_foldl_corroborate:
  "As \<noteq> [] \<Longrightarrow> extracted_by (foldl corroborate r As) = Both"
  by (induction As rule: rev_induct) (simp_all add: corroborate_def)

lemma confidence_foldl_corroborate:
  "confidence (foldl corroborate r As) = fold max (map confidence As) (confidence r)"
  by (induction As arbitrary: r) (simp_all add: corroborate_def max.commute)

lemma merged_entry:
  assumes Rs: "filter (\<lambda>r. email r = e) R \<noteq> []"
  shows "filter (\<lambda>c. email c = e) (mergeEmailResults A R) =
         [foldl corroborate (last (filter (\<lambda>r. email r = e) R))
            (filter (\<lambda>a. email a = e \<and> accepted a) A)]"
proof -
  let ?m0 = "fold merge_regex R []"
  have k0: "keyed ([] :: (string \<times> candidate) list)" by (simp add: keyed_def)
  have k: "keyed (fold merge_ai A ?m0)"
    by (intro keyed_fold_ai keyed_fold_regex k0)
  from Rs have l0: "map_of ?m0 e = Some (last (filter (\<lambda>r. email r = e) R))"
    by (simp add: lookup_fold_regex split: list.splits)
  have "map_of (fold merge_ai A ?m0) e =
        Some (foldl corroborate (last (filter (\<lambda>r. email r = e) R))
            (filter (\<lambda>a. email a = e \<and> accepted a) A))"
    by (simp add: lookup_fold_ai l0 foldl_fold_in_Some)
  with keyed_filter [OF k, of e] show ?thesis
    by (simp add: mergeEmailResults_def)
qed

subsection \<open>Every candidate of the result is validated and normalised\<close>

lemma push_invariant:
  assumes "\<forall>c \<in> set (snd st). accepted c \<and> normalizeEmail (email c) = email c"
  shows "\<forall>c \<in> set (snd (push u raw st)). accepted c \<and> normalizeEmail (email c) = email c"
  using assms
  by (auto simp: push_def Let_def accepted_def normalizeEmail_idem)

lemma fold_push_invariant:
  assumes "\<forall>c \<in> set (snd st). accepted c \<and> normalizeEmail (email c) = email c"
  shows "\<forall>c \<in> set (snd (fold (push u) raws st)).
           accepted c \<and> normalizeEmail (email c) = email c"
  using assms
proof (induction raws arbitrary: st)
  case Nil
  then show ?case by simp
next
  case (Cons raw raws)
  from push_invariant [OF Cons.prems]
  have "\<forall>c \<in> set (snd (push u raw st)). accepted c \<and> normalizeEmail (email c) = email c" .
  from Cons.IH [OF this] show ?case by simp
qed

lemma extractEmailsRegex_invariant:
  "\<forall>c \<in> set (extractEmailsRegex raws u). accepted c \<and> normalizeEmail (email c) = email c"
  unfolding extractEmailsRegex_def
  by (rule fold_push_invariant) simp

lemma llm_candidates_normalised:
  "\<forall>c \<in> set (llm_candidates items u). normalizeEmail (email c) = email c"
proof (induction items)
  case Nil
  show ?case by simp
next
  case (Cons e es)
  have "normalizeEmail (trim (toLowerCase (item_email e))) = trim (toLowerCase (item_email e))"
    using normalizeEmail_idem [of "item_email e"] by (simp add: normalizeEmail_def)
  with Cons.IH show ?case by (simp add: Let_def)
qed

lemma page_ai_normalised:
  "\<forall>c \<in> set (page_ai opts p). normalizeEmail (email c) = email c"
  using llm_candidates_normalised
  by (auto simp: page_ai_def extractEmailsWithLLM_def split: option.splits)

text \<open>A property of the addresses that both loops of the merge keep.\<close>

lemma merge_regex_values:
  assumes "\<forall>kv \<in> set m. Q (email (snd kv))" and "Q (email r)"
  shows "\<forall>kv \<in> set (merge_regex r m). Q (email (snd kv))"
  using assms set_map_set [of "email r" r m]
  by (auto simp: merge_regex_def)

lemma merge_ai_values:
  assumes "\<forall>kv \<in> set m. Q (email (snd kv))" and "accepted a \<longrightarrow> Q (email a)"
  shows "\<forall>kv \<in> set (merge_ai a m). Q (email (snd kv))"
proof (cases "accepted a")
  case False
  with assms(1) show ?thesis by (simp add: merge_ai_def accepted_def)
next
  case True
  show ?thesis
  proof (cases "map_of m (email a)")
    case None
    with True have "merge_ai a m = map_set (email a) a m"
      by (simp add: merge_ai_def accepted_def map_get_def)
    with assms True set_map_set [of "email a" a m] show ?thesis by auto
  next
    case (Some ex)
    with True have eq: "merge_ai a m = map_set (email a) (corroborate ex a) m"
      by (simp add: merge_ai_def accepted_def map_get_def)
    from Some have "(email a, ex) \<in> set m" by (rule map_of_SomeD)
    with assms(1) have "Q (email ex)" by force
    then have "Q (email (corroborate ex a))" by (simp add: email_corroborate)
    with assms(1) set_map_set [of "email a" "corroborate ex a" m] show ?thesis
      unfolding eq by auto
  qed
qed

lemma fold_merge_regex_values:
  assumes "\<forall>kv \<in> set m. Q (email (snd kv))" and "\<forall>r \<in> set R. Q (email r)"
  shows "\<forall>kv \<in> set (fold merge_regex R m). Q (email (snd kv))"
  using assms
proof (induction R arbitrary: m)
  case Nil
  then show ?case by simp
next
  case (Cons r R)
  from Cons.prems have "\<forall>kv \<in> set (merge_regex r m). Q (email (snd kv))"
    by (intro merge_regex_values) simp_all
  with Cons.prems Cons.IH [of "merge_regex r m"] show ?case by simp
qed

lemma fold_merge_ai_values:
  assumes "\<forall>kv \<in> set m. Q (email (snd kv))" and "\<forall>a \<in> set A. accepted a \<longrightarrow> Q (email a)"
  shows "\<forall>kv \<in> set (fold merge_ai A m). Q (email (snd kv))"
  using assms
proof (induction A arbitrary: m)
  case Nil
  then show ?case by simp
next
  case (Cons a A)
  from Cons.prems have "\<forall>kv \<in> set (merge_ai a m). Q (email (snd kv))"
    by (intro merge_ai_values) simp_all
  with Cons.prems Cons.IH [of "merge_ai a m"] show ?case by simp
qed

lemma mergeEmailResults_values:
  assumes "\<forall>r \<in> set R. Q (email r)" and "\<forall>a \<in> set A. accepted a \<longrightarrow> Q (email a)"
  shows "\<forall>c \<in> set (mergeEmailResults A R). Q (email c)"
proof -
  have "\<forall>kv \<in> set (fold merge_regex R []). Q (email (snd kv))"
    using assms(1) by (intro fold_merge_regex_values) simp_all
  then have "\<forall>kv \<in> set (fold merge_ai A (fold merge_regex R [])). Q (email (snd kv))"
    using assms(2) by (rule fold_merge_ai_values)
  then show ?thesis by (simp add: mergeEmailResults_def map_values_def)
qed

lemma set_pickBestEmails: "set (pickBestEmails es n) \<subseteq> set es"
proof -
  have "set (take n (sort_key snd (map (\<lambda>e. (e, priority_of e)) es)))
          \<subseteq> set (sort_key snd (map (\<lambda>e. (e, priority_of e)) es))"
    by (rule set_take_subset)
  then show ?thesis by (auto simp: pickBestEmails_def Let_def)
qed

text \<open>
  C6.  Every candidate that \<open>extractEmailsFromPages\<close> returns, whatever the pages hold and
  whatever the language model replies, has an address that is lower-cased and trimmed, that
  \<open>isValidEmail\<close> accepts and that carries no junk prefix.  For any list handed to the merge
  as the language model's candidates, the merged output holds accepted addresses only, as
  long as the regex candidates are accepted, which those of \<open>extractEmailsRegex\<close> are.
\<close>

theorem extracted_emails_validated:
  "(\<forall>c \<in> set (extractEmailsFromPages pages opts).
      toLowerCase (email c) = email c \<and> trim (email c) = email c \<and>
      isValidEmail (email c) \<and> \<not> isJunkPrefix (email c)) \<and>
   (\<forall>A R. (\<forall>r \<in> set R. accepted r) \<longrightarrow> (\<forall>c \<in> set (mergeEmailResults A R). accepted c))"
proof -
  let ?R = "concat (map (\<lambda>p. extractEmailsRegex (found p) (url p)) pages)"
  let ?A = "concat (map (page_ai opts) pages)"
  let ?Q = "\<lambda>e. (isValidEmail e \<and> \<not> isJunkPrefix e) \<and> normalizeEmail e = e"
  have R: "\<forall>r \<in> set ?R. ?Q (email r)"
    using extractEmailsRegex_invariant by (auto simp: accepted_def)
  have A: "\<forall>a \<in> set ?A. accepted a \<longrightarrow> ?Q (email a)"
    using page_ai_normalised by (auto simp: accepted_def)
  have "\<forall>c \<in> set (mergeEmailResults ?A ?R). ?Q (email c)"
    using R A by (rule mergeEmailResults_values)
  with set_pickBestEmails [of "mergeEmailResults ?A ?R" "maxEmailsPerDomain opts"]
  have 1: "\<forall>c \<in> set (extractEmailsFromPages pages opts). ?Q (email c)"
    by (auto simp: extractEmailsFromPages_def Let_def)
  have 2: "\<forall>c \<in> set (mergeEmailResults A R). accepted c" if "\<forall>r \<in> set R. accepted r" for A R
  proof -
    have "\<forall>c \<in> set (mergeEmailResults A R). (\<lambda>e. isValidEmail e \<and> \<not> isJunkPrefix e) (email c)"
      using that by (intro mergeEmailResults_values) (simp_all add: accepted_def)
    then show ?thesis by (simp add: accepted_def)
  qed
  from 1 2 show ?thesis by (metis normalizeEmail_parts)
qed

theorem extracted_emails_validated_witness:
  "map email (extractEmailsFromPages [example_page] example_options) =
     [''info@site.com'', ''sales@site.com''] \<and>
   toLowerCase ''sales@site.com'' = ''sales@site.com'' \<and>
   trim ''sales@site.com'' = ''sales@site.com'' \<and>
   isValidEmail ''sales@site.com'' \<and> \<not> isJunkPrefix ''sales@site.com'' \<and>
   list_all accepted (mergeEmailResults [ai_candidate ''privacy@site.com'' ''u'' Generic 1]
       [regex_candidate ''info@site.com''])"
proof -
  have ev: "map email (extractEmailsFromPages [example_page] example_options) =
     [''info@site.com'', ''sales@site.com'']"
    by code_simp
  then have "''sales@site.com'' \<in> email ` set (extractEmailsFromPages [example_page] example_options)"
    unfolding set_map [symmetric] by simp
  then obtain c where c: "c \<in> set (extractEmailsFromPages [example_page] example_options)"
    and e: "email c = ''sales@site.com''" by auto
  from extracted_emails_validated [of "[example_page]" example_options] c
  have "toLowerCase (email c) = email c \<and> trim (email c) = email c \<and>
      isValidEmail (email c) \<and> \<not> isJunkPrefix (email c)" by blast
  then have 1: "toLowerCase ''sales@site.com'' = ''sales@site.com'' \<and>
   trim ''sales@site.com'' = ''sales@site.com'' \<and>
   isValidEmail ''sales@site.com'' \<and> \<not> isJunkPrefix ''sales@site.com''"
    unfolding e .
  have "accepted (regex_candidate ''info@site.com'')" by code_simp
  then have "\<forall>r \<in> set [regex_candidate ''info@site.com'']. accepted r" by simp
  with extracted_emails_validated [of "[example_page]" example_options]
  have "\<forall>c \<in> set (mergeEmailResults [ai_candidate ''privacy@site.com'' ''u'' Generic 1]
       [regex_candidate ''info@site.com'']). accepted c" by blast
  then have 2: "list_all accepted (mergeEmailResults [ai_candidate ''privacy@site.com'' ''u'' Generic 1]
       [regex_candidate ''info@site.com''])" by (simp add: list_all_iff)
  from ev 1 2 show ?thesis by blast
qed

subsection \<open>The type of a candidate found by both sources\<close>

text \<open>
  C10.  Let the address \<open>e\<close> be valid and free of junk prefixes (as every regex candidate
  is), and let both the regex list and the language model's list hold candidates for it.
  Then the merge holds exactly one candidate for \<open>e\<close>.  Its type is the type the language
  model reported, when that is not \<open>unknown\<close> (of the last such candidate, should the model
  have reported \<open>e\<close> more than once); the regex type is kept when every reported type is
  \<open>unknown\<close>.
\<close>

theorem merged_email_type:
  assumes "filter (\<lambda>r. email r = e) R \<noteq> []"
    and "isValidEmail e" and "\<not> isJunkPrefix e"
    and "filter (\<lambda>a. email a = e) A \<noteq> []"
  shows "\<exists>c. filter (\<lambda>c. email c = e) (mergeEmailResults A R) = [c] \<and>
             ((\<exists>a \<in> set (filter (\<lambda>a. email a = e) A). email_type a \<noteq> Unknown) \<longrightarrow>
                email_type c =
                email_type (last (filter (\<lambda>a. email a = e \<and> email_type a \<noteq> Unknown) A))) \<and>
             ((\<forall>a \<in> set (filter (\<lambda>a. email a = e) A). email_type a = Unknown) \<longrightarrow>
                email_type c = email_type (last (filter (\<lambda>r. email r = e) R)))"
proof -
  let ?As = "filter (\<lambda>a. email a = e) A"
  let ?r = "last (filter (\<lambda>r. email r = e) R)"
  from assms(2,3) have As: "filter (\<lambda>a. email a = e \<and> accepted a) A = ?As"
    by (intro filter_cong) (auto simp: accepted_def)
  let ?c = "foldl corroborate ?r ?As"
  have one: "filter (\<lambda>c. email c = e) (mergeEmailResults A R) = [?c]"
    using merged_entry [OF assms(1), of A] by (simp add: As)
  have ty: "email_type ?c =
     (case filter (\<lambda>a. email_type a \<noteq> Unknown) ?As of
        [] \<Rightarrow> email_type ?r | t # ts \<Rightarrow> email_type (last (t # ts)))"
    by (rule email_type_foldl_corroborate)
  have ff: "filter (\<lambda>a. email_type a \<noteq> Unknown) ?As =
            filter (\<lambda>a. email a = e \<and> email_type a \<noteq> Unknown) A"
    by simp
  have a: "email_type ?c =
        email_type (last (filter (\<lambda>a. email a = e \<and> email_type a \<noteq> Unknown) A))"
    if "\<exists>a \<in> set ?As. email_type a \<noteq> Unknown"
  proof -
    from that have "filter (\<lambda>a. email_type a \<noteq> Unknown) ?As \<noteq> []"
      by (auto simp: filter_empty_conv)
    then show ?thesis
      unfolding ty ff [symmetric] by (simp split: list.splits)
  qed
  have b: "email_type ?c = email_type ?r" if "\<forall>a \<in> set ?As. email_type a = Unknown"
  proof -
    from that have "filter (\<lambda>a. email_type a \<noteq> Unknown) ?As = []"
      by (simp add: filter_empty_conv)
    then show ?thesis unfolding ty by simp
  qed
  from one a b show ?thesis by blast
qed

theorem merged_email_type_witness:
  "map email_type (filter (\<lambda>c. email c = ''info@site.com'')
      (mergeEmailResults [ai_candidate ''info@site.com'' ''https://site.com/'' Personal (19 / 20)]
         [regex_candidate ''info@site.com''])) = [Personal] \<and>
   email_type (regex_candidate ''info@site.com'') = Generic \<and>
   map email_type (filter (\<lambda>c. email c = ''info@site.com'')
      (mergeEmailResults [ai_candidate ''info@site.com'' ''https://site.com/'' Unknown (19 / 20)]
         [regex_candidate ''info@site.com''])) = [Generic]"
proof -
  let ?e = "''info@site.com''"
  let ?R = "[regex_candidate ?e]"
  let ?A = "[ai_candidate ?e ''https://site.com/'' Personal (19 / 20)]"
  let ?U = "[ai_candidate ?e ''https://site.com/'' Unknown (19 / 20)]"
  have er: "email (regex_candidate ?e) = ?e" by (simp add: regex_candidate_def)
  have tr: "email_type (regex_candidate ?e) = Generic" by code_simp
  have ea: "email (ai_candidate ?e u k x) = ?e" "email_type (ai_candidate ?e u k x) = k" for u k x
    by (simp_all add: ai_candidate_def)
  have h1: "filter (\<lambda>r. email r = ?e) ?R \<noteq> []" by (simp add: er)
  have h2: "isValidEmail ?e" by code_simp
  have h3: "\<not> isJunkPrefix ?e" by code_simp
  have h4: "filter (\<lambda>a. email a = ?e) ?A \<noteq> []" "filter (\<lambda>a. email a = ?e) ?U \<noteq> []"
    by (simp_all add: ea)
  from merged_email_type [OF h1 h2 h3 h4(1)]
  have 1: "map email_type (filter (\<lambda>c. email c = ?e) (mergeEmailResults ?A ?R)) = [Personal]"
    by (auto simp: ea)
  from merged_email_type [OF h1 h2 h3 h4(2)]
  have 2: "map email_type (filter (\<lambda>c. email c = ?e) (mergeEmailResults ?U ?R)) = [Generic]"
    by (auto simp: ea er tr)
  from 1 tr 2 show ?thesis by blast
qed

subsection \<open>The merge when every address is reported once\<close>

text \<open>
  The merge on lists in which the language model reports every address at most once: an
  address of both lists has one candidate, marked \<open>both\<close>, with the larger confidence; an
  accepted address of the language model's list alone is inserted as it is; an address of the
  regex list alone is kept as it is.
\<close>

lemma merged_entry_ai_only:
  assumes "filter (\<lambda>r. email r = e) R = []"
  shows "map_of (fold merge_ai A (fold merge_regex R [])) e =
         foldl fold_in None (filter (\<lambda>a. email a = e \<and> accepted a) A)"
  using assms by (simp add: lookup_fold_ai lookup_fold_regex)

lemma filter_single:
  assumes "distinct (map email A)" and "a \<in> set A"
  shows "filter (\<lambda>x. email x = email a) A = [a]"
  using assms
proof (induction A)
  case Nil
  then show ?case by simp
next
  case (Cons x A)
  show ?case
  proof (cases "x = a")
    case True
    from Cons.prems(1) have "email x \<notin> email ` set A" by simp
    then have "\<forall>y \<in> set A. email y \<noteq> email x" by (metis image_eqI)
    then have "filter (\<lambda>y. email y = email x) A = []" by (simp add: filter_empty_conv)
    with True show ?thesis by simp
  next
    case False
    with Cons.prems have in_A: "a \<in> set A" by simp
    with Cons.prems(1) have "email x \<noteq> email a" by (metis distinct.simps(2) image_eqI list.simps(9) set_map)
    with Cons.IH in_A Cons.prems(1) show ?thesis by simp
  qed
qed

lemma mergeEmailResults_single_reports:
  assumes d: "distinct (map email A)"
  shows "(filter (\<lambda>r. email r = e) R \<noteq> [] \<and> a \<in> set A \<and> email a = e \<and> accepted a \<longrightarrow>
            filter (\<lambda>c. email c = e) (mergeEmailResults A R) =
              [(last (filter (\<lambda>r. email r = e) R))
                 \<lparr>extracted_by := Both,
                  confidence := max (confidence (last (filter (\<lambda>r. email r = e) R))) (confidence a),
                  email_type := (if email_type a \<noteq> Unknown then email_type a
                                 else email_type (last (filter (\<lambda>r. email r = e) R)))\<rparr>]) \<and>
         (filter (\<lambda>r. email r = e) R = [] \<and> a \<in> set A \<and> email a = e \<and> accepted a \<longrightarrow>
            filter (\<lambda>c. email c = e) (mergeEmailResults A R) = [a]) \<and>
         (filter (\<lambda>r. email r = e) R \<noteq> [] \<and> e \<notin> email ` set A \<longrightarrow>
            filter (\<lambda>c. email c = e) (mergeEmailResults A R) =
              [last (filter (\<lambda>r. email r = e) R)])"
proof -
  let ?Rs = "filter (\<lambda>r. email r = e) R"
  have k: "keyed (fold merge_ai A (fold merge_regex R []))"
    by (intro keyed_fold_ai keyed_fold_regex) (simp add: keyed_def)
  have one: "filter (\<lambda>x. email x = e \<and> accepted x) A = [a]"
    if "a \<in> set A" "email a = e" "accepted a"
  proof -
    from filter_single [OF d that(1)] that(2)
    have "filter (\<lambda>x. email x = e) A = [a]" by simp
    then have "filter accepted (filter (\<lambda>x. email x = e) A) = [a]"
      using that(3) by simp
    then show ?thesis by (simp add: conj_commute)
  qed
  have a1: "filter (\<lambda>c. email c = e) (mergeEmailResults A R) = [corroborate (last ?Rs) a]"
    if "?Rs \<noteq> [] \<and> a \<in> set A \<and> email a = e \<and> accepted a"
    using that merged_entry [of e R A] one by simp
  have a2: "filter (\<lambda>c. email c = e) (mergeEmailResults A R) = [a]"
    if h: "?Rs = [] \<and> a \<in> set A \<and> email a = e \<and> accepted a"
  proof -
    from h have "map_of (fold merge_ai A (fold merge_regex R [])) e = Some a"
      by (simp add: merged_entry_ai_only one fold_in_def)
    with keyed_filter [OF k, of e] show ?thesis by (simp add: mergeEmailResults_def)
  qed
  have a3: "filter (\<lambda>c. email c = e) (mergeEmailResults A R) = [last ?Rs]"
    if h: "?Rs \<noteq> [] \<and> e \<notin> email ` set A"
  proof -
    from h have "\<forall>x \<in> set A. email x \<noteq> e" by (metis image_eqI)
    then have "filter (\<lambda>x. email x = e \<and> accepted x) A = []"
      by (simp add: filter_empty_conv)
    with h merged_entry [of e R A] show ?thesis by simp
  qed
  from a1 a2 a3 show ?thesis by (simp add: corroborate_def)
qed

subsection \<open>An address that only the language model reports, twice\<close>

text \<open>
  C3.  The lists of the pages are concatenated before the merge, so an address that the
  language model reports on two pages stands twice in its list.  With no regex candidate at
  all, the second occurrence meets the first in the map and is merged into it: the result is
  marked \<open>both\<close> and carries the larger confidence, although one source alone reported the
  address.
\<close>

theorem mergeEmailResults_ai_only_twice:
  "mergeEmailResults
     [ai_candidate ''info@site.com'' ''https://site.com/'' Generic (7 / 10),
      ai_candidate ''info@site.com'' ''https://site.com/contact'' Generic (8 / 10)] [] =
   [\<lparr>email = ''info@site.com'', source_url = ''https://site.com/'', email_type = Generic,
     confidence = 8 / 10, extracted_by = Both\<rparr>]"
proof -
  have v: "isValidEmail ''info@site.com''" "\<not> isJunkPrefix ''info@site.com''"
    by code_simp+
  show ?thesis
    by (simp add: mergeEmailResults_def merge_ai_def ai_candidate_def v map_get_def
        map_values_def corroborate_def)
qed

subsection \<open>Ranking\<close>

lemma findIndex_Some:
  "findIndex P xs = Some i \<Longrightarrow> i < length xs \<and> P (xs ! i) \<and> (\<forall>j < i. \<not> P (xs ! j))"
proof (induction xs arbitrary: i)
  case Nil
  then show ?case by simp
next
  case (Cons x xs)
  show ?case
  proof (cases "P x")
    case True
    with Cons.prems show ?thesis by simp
  next
    case False
    with Cons.prems obtain i' where i': "findIndex P xs = Some i'" and i: "i = Suc i'"
      by auto
    from Cons.IH [OF i'] False show ?thesis
      by (auto simp: i less_Suc_eq_0_disj)
  qed
qed

lemma findIndex_None: "findIndex P xs = None \<longleftrightarrow> (\<forall>x \<in> set xs. \<not> P x)"
  by (induction xs) auto

lemma distinct_priorityOrder: "distinct priorityOrder"
  by (simp add: priorityOrder_def)

lemma startsWith_refl: "startsWith s s"
  by (induction s) simp_all

lemma priority_of_exact:
  assumes "i < length priorityOrder" and "local_of (email c) = priorityOrder ! i"
  shows "priority_of c = i"
proof -
  from assms have "local_of (email c) \<in> set priorityOrder" by simp
  then have "indexOf priorityOrder (local_of (email c)) \<noteq> None"
    by (simp add: indexOf_def findIndex_None)
  then obtain j where j: "indexOf priorityOrder (local_of (email c)) = Some j" by blast
  from findIndex_Some [OF j [unfolded indexOf_def]]
  have "j < length priorityOrder" and "priorityOrder ! j = local_of (email c)" by simp_all
  with assms distinct_priorityOrder have "j = i"
    by (simp add: nth_eq_iff_index_eq)
  with j show ?thesis by (simp add: priority_of_def)
qed

lemma priority_of_prefix:
  assumes "local_of (email c) \<notin> set priorityOrder"
    and "\<exists>p \<in> set priorityOrder. startsWith (local_of (email c)) p"
  shows "priority_of c < length priorityOrder \<and>
         startsWith (local_of (email c)) (priorityOrder ! priority_of c) \<and>
         (\<forall>j < priority_of c. \<not> startsWith (local_of (email c)) (priorityOrder ! j))"
proof -
  let ?l = "local_of (email c)"
  from assms(1) have n: "indexOf priorityOrder ?l = None"
    by (auto simp: indexOf_def findIndex_None)
  from assms(2) have "findIndex (\<lambda>p. startsWith ?l p) priorityOrder \<noteq> None"
    by (simp add: findIndex_None)
  then obtain i where i: "findIndex (\<lambda>p. startsWith ?l p) priorityOrder = Some i" by blast
  then have "priority_of c = i" by (simp add: priority_of_def n)
  with findIndex_Some [OF i] show ?thesis by simp
qed

lemma priority_of_unlisted:
  assumes "\<forall>p \<in> set priorityOrder. \<not> startsWith (local_of (email c)) p"
  shows "priority_of c = (if email_type c = Generic then 50 else 100)"
proof -
  let ?l = "local_of (email c)"
  from assms startsWith_refl have "?l \<notin> set priorityOrder" by blast
  then have n: "indexOf priorityOrder ?l = None"
    by (auto simp: indexOf_def findIndex_None)
  from assms have "findIndex (\<lambda>p. startsWith ?l p) priorityOrder = None"
    by (simp add: findIndex_None)
  with n show ?thesis by (simp add: priority_of_def)
qed

lemma insort_key_scored:
  "insort_key snd (x, f x) (map (\<lambda>e. (e, f e)) ys) = map (\<lambda>e. (e, f e)) (insort_key f x ys)"
  by (induction ys) simp_all

lemma sort_key_scored:
  "sort_key snd (map (\<lambda>e. (e, f e)) xs) = map (\<lambda>e. (e, f e)) (sort_key f xs)"
  by (induction xs) (simp_all add: insort_key_scored)

lemma pickBestEmails_take: "pickBestEmails es n = take n (sort_key priority_of es)"
  by (simp add: pickBestEmails_def sort_key_scored take_map comp_def)

lemma pickBestEmails_stable_sorted:
  "length (pickBestEmails es n) = min n (length es) \<and>
   sorted (map priority_of (pickBestEmails es n @ drop n (sort_key priority_of es))) \<and>
   (\<forall>k. filter (\<lambda>c. priority_of c = k) (pickBestEmails es n @ drop n (sort_key priority_of es)) =
        filter (\<lambda>c. priority_of c = k) es)"
  by (simp add: pickBestEmails_take sort_key_stable min.commute)

lemma local_of_examples:
  "local_of ''sales@x'' = ''sales''" "local_of ''info@x'' = ''info''"
  "local_of ''random@x'' = ''random''"
  by code_simp+

lemma random_unlisted: "\<forall>p \<in> set priorityOrder. \<not> startsWith ''random'' p"
  by code_simp

lemma priorityOrder_nth2: "priorityOrder ! 2 = ''sales''"
  by (simp add: priorityOrder_def)

lemma priorityOrder_nth0: "priorityOrder ! 0 = ''info''"
  by (simp add: priorityOrder_def)

lemma length_priorityOrder: "length priorityOrder = 11"
  by (simp add: priorityOrder_def)

lemma three_example:
  assumes "email c1 = ''sales@x''" "email c2 = ''info@x''" "email c3 = ''random@x''" "3 \<le> n"
  shows "pickBestEmails [c1, c2, c3] n = [c2, c1, c3]"
proof -
  have p1: "priority_of c1 = 2"
  proof (rule priority_of_exact)
    show "2 < length priorityOrder" by (simp add: length_priorityOrder)
    show "local_of (email c1) = priorityOrder ! 2" by (simp only: assms local_of_examples priorityOrder_nth2)
  qed
  have p2: "priority_of c2 = 0"
  proof (rule priority_of_exact)
    show "0 < length priorityOrder" by (simp add: length_priorityOrder)
    show "local_of (email c2) = priorityOrder ! 0" by (simp only: assms local_of_examples priorityOrder_nth0)
  qed
  have "\<forall>p \<in> set priorityOrder. \<not> startsWith (local_of (email c3)) p"
    unfolding assms local_of_examples by (rule random_unlisted)
  then have p3: "priority_of c3 = (if email_type c3 = Generic then 50 else 100)"
    by (rule priority_of_unlisted)
  have s: "sort_key priority_of [c1, c2, c3] = [c2, c1, c3]"
    by (simp add: p1 p2 p3)
  from \<open>3 \<le> n\<close> show ?thesis
    unfolding pickBestEmails_take s by simp
qed

text \<open>
  C4.  \<open>pickBestEmails\<close> returns the first \<open>maxPerDomain\<close> candidates (all of them when
  there are fewer) of the stable ordering by priority: followed by a suitable rest, the
  result is sorted by priority and holds, for every priority, the candidates of that
  priority in the order in which the input holds them.  The priority of a candidate is the
  position of its local part in the list info, contact, sales, booking, bookings,
  reservations, office, hello, enquiry, enquiries, support when it stands there; else the
  position of the first entry that is a prefix of the local part; else 50 for a candidate
  typed generic and 100 for any other.  So sales, info, random come out as info, sales,
  random, and eight candidates with a limit of five yield the five of highest priority.
\<close>

theorem pickBestEmails_ranking:
  "(\<exists>rest. length (pickBestEmails es n) = min n (length es) \<and>
       sorted (map priority_of (pickBestEmails es n @ rest)) \<and>
       (\<forall>k. filter (\<lambda>c. priority_of c = k) (pickBestEmails es n @ rest) =
            filter (\<lambda>c. priority_of c = k) es)) \<and>
   priorityOrder = [''info'', ''contact'', ''sales'', ''booking'', ''bookings'', ''reservations'',
      ''office'', ''hello'', ''enquiry'', ''enquiries'', ''support''] \<and>
   (\<forall>c i. i < length priorityOrder \<and> local_of (email c) = priorityOrder ! i \<longrightarrow>
      priority_of c = i) \<and>
   (\<forall>c. local_of (email c) \<notin> set priorityOrder \<and>
        (\<exists>p \<in> set priorityOrder. startsWith (local_of (email c)) p) \<longrightarrow>
      priority_of c < length priorityOrder \<and>
      startsWith (local_of (email c)) (priorityOrder ! priority_of c) \<and>
      (\<forall>j < priority_of c. \<not> startsWith (local_of (email c)) (priorityOrder ! j))) \<and>
   (\<forall>c. (\<forall>p \<in> set priorityOrder. \<not> startsWith (local_of (email c)) p) \<longrightarrow>
      priority_of c = (if email_type c = Generic then 50 else 100)) \<and>
   (\<forall>c1 c2 c3 m. email c1 = ''sales@x'' \<and> email c2 = ''info@x'' \<and> email c3 = ''random@x'' \<and>
      3 \<le> m \<longrightarrow> pickBestEmails [c1, c2, c3] m = [c2, c1, c3])"
proof -
  have a: "\<exists>rest. length (pickBestEmails es n) = min n (length es) \<and>
       sorted (map priority_of (pickBestEmails es n @ rest)) \<and>
       (\<forall>k. filter (\<lambda>c. priority_of c = k) (pickBestEmails es n @ rest) =
            filter (\<lambda>c. priority_of c = k) es)"
    using pickBestEmails_stable_sorted [of es n] by (rule exI)
  have b: "priorityOrder = [''info'', ''contact'', ''sales'', ''booking'', ''bookings'',
      ''reservations'', ''office'', ''hello'', ''enquiry'', ''enquiries'', ''support'']"
    by (rule priorityOrder_def)
  have c: "\<forall>c i. i < length priorityOrder \<and> local_of (email c) = priorityOrder ! i \<longrightarrow>
      priority_of c = i"
    using priority_of_exact by blast
  have d: "\<forall>c. local_of (email c) \<notin> set priorityOrder \<and>
        (\<exists>p \<in> set priorityOrder. startsWith (local_of (email c)) p) \<longrightarrow>
      priority_of c < length priorityOrder \<and>
      startsWith (local_of (email c)) (priorityOrder ! priority_of c) \<and>
      (\<forall>j < priority_of c. \<not> startsWith (local_of (email c)) (priorityOrder ! j))"
    using priority_of_prefix by blast
  have e: "\<forall>c. (\<forall>p \<in> set priorityOrder. \<not> startsWith (local_of (email c)) p) \<longrightarrow>
      priority_of c = (if email_type c = Generic then 50 else 100)"
    using priority_of_unlisted by blast
  have f: "\<forall>c1 c2 c3 m. email c1 = ''sales@x'' \<and> email c2 = ''info@x'' \<and>
      email c3 = ''random@x'' \<and> 3 \<le> m \<longrightarrow> pickBestEmails [c1, c2, c3] m = [c2, c1, c3]"
    using three_example by blast
  from a b c d e f show ?thesis by (intro conjI)
qed


theorem pickBestEmails_ranking_witness:
  "length (pickBestEmails eight_candidates 5) = 5 \<and>
   map priority_of eight_candidates = [100, 10, 2, 3, 0, 100, 50, 1] \<and>
   map email (pickBestEmails eight_candidates 5) =
     [''info@site.com'', ''contact@site.com'', ''sales@site.com'', ''booking-team@site.com'',
      ''support@site.com''] \<and>
   map email (pickBestEmails eight_candidates 8) =
     [''info@site.com'', ''contact@site.com'', ''sales@site.com'', ''booking-team@site.com'',
      ''support@site.com'', ''reservation@site.com'', ''joe@site.com'', ''ann@site.com''] \<and>
   pickBestEmails
     [regex_candidate ''sales@x'', regex_candidate ''info@x'', regex_candidate ''random@x''] 5 =
     [regex_candidate ''info@x'', regex_candidate ''sales@x'', regex_candidate ''random@x''] \<and>
   priority_of (regex_candidate ''sales@site.com'') = 2 \<and>
   startsWith ''booking-team'' (priorityOrder ! priority_of (regex_candidate ''booking-team@site.com'')) \<and>
   priority_of (regex_candidate ''reservation@site.com'') = 50 \<and>
   priority_of (regex_candidate ''joe@site.com'') = 100"
proof -
  note rk = pickBestEmails_ranking [of eight_candidates 5]
  have len: "length eight_candidates = 8" by (simp add: eight_candidates_def)
  from rk have a: "length (pickBestEmails eight_candidates 5) = 5" by (auto simp: len)
  have b: "map priority_of eight_candidates = [100, 10, 2, 3, 0, 100, 50, 1]"
    by code_simp
  have c: "map email (pickBestEmails eight_candidates 5) =
     [''info@site.com'', ''contact@site.com'', ''sales@site.com'', ''booking-team@site.com'',
      ''support@site.com'']"
    by code_simp
  have d: "map email (pickBestEmails eight_candidates 8) =
     [''info@site.com'', ''contact@site.com'', ''sales@site.com'', ''booking-team@site.com'',
      ''support@site.com'', ''reservation@site.com'', ''joe@site.com'', ''ann@site.com'']"
    by code_simp
  have em: "email (regex_candidate x) = x" for x by (simp add: regex_candidate_def)
  from rk
  have "email (regex_candidate ''sales@x'') = ''sales@x'' \<and>
        email (regex_candidate ''info@x'') = ''info@x'' \<and>
        email (regex_candidate ''random@x'') = ''random@x'' \<and> (3::nat) \<le> 5 \<longrightarrow>
        pickBestEmails
          [regex_candidate ''sales@x'', regex_candidate ''info@x'', regex_candidate ''random@x''] 5 =
          [regex_candidate ''info@x'', regex_candidate ''sales@x'', regex_candidate ''random@x'']"
    by blast
  then have e: "pickBestEmails
          [regex_candidate ''sales@x'', regex_candidate ''info@x'', regex_candidate ''random@x''] 5 =
          [regex_candidate ''info@x'', regex_candidate ''sales@x'', regex_candidate ''random@x'']"
    by (simp add: em)
  have x1: "2 < length priorityOrder \<and>
      local_of (email (regex_candidate ''sales@site.com'')) = priorityOrder ! 2"
    by code_simp
  from rk x1 have f: "priority_of (regex_candidate ''sales@site.com'') = 2" by blast
  have x2: "local_of (email (regex_candidate ''booking-team@site.com'')) \<notin> set priorityOrder \<and>
      (\<exists>p \<in> set priorityOrder.
         startsWith (local_of (email (regex_candidate ''booking-team@site.com''))) p)"
    by code_simp
  have l2: "local_of (email (regex_candidate ''booking-team@site.com'')) = ''booking-team''"
    by code_simp
  from rk x2
  have "startsWith (local_of (email (regex_candidate ''booking-team@site.com'')))
          (priorityOrder ! priority_of (regex_candidate ''booking-team@site.com''))"
    by blast
  then have g: "startsWith ''booking-team''
          (priorityOrder ! priority_of (regex_candidate ''booking-team@site.com''))"
    by (simp only: l2)
  have x3: "\<forall>p \<in> set priorityOrder.
      \<not> startsWith (local_of (email (regex_candidate ''reservation@site.com''))) p"
    by code_simp
  have t3: "email_type (regex_candidate ''reservation@site.com'') = Generic" by code_simp
  from rk x3
  have "priority_of (regex_candidate ''reservation@site.com'') =
        (if email_type (regex_candidate ''reservation@site.com'') = Generic then 50 else 100)"
    by blast
  then have h: "priority_of (regex_candidate ''reservation@site.com'') = 50"
    by (simp add: t3)
  have x4: "\<forall>p \<in> set priorityOrder.
      \<not> startsWith (local_of (email (regex_candidate ''joe@site.com''))) p"
    by code_simp
  have t4: "email_type (regex_candidate ''joe@site.com'') = Personal" by code_simp
  from rk x4
  have "priority_of (regex_candidate ''joe@site.com'') =
        (if email_type (regex_candidate ''joe@site.com'') = Generic then 50 else 100)"
    by blast
  then have i: "priority_of (regex_candidate ''joe@site.com'') = 100"
    by (simp add: t4)
  from a b c d e f g h i show ?thesis by (intro conjI)
qed

subsection \<open>The extractor: what each step leaves alone\<close>

lemma set_status_fields [simp]:
  "processedDomains (set_status i st s) = processedDomains s"
  "crawls (set_status i st s) = crawls s"
  "skipped (set_status i st s) = skipped s"
  "allRows (set_status i st s) = allRows s"
  "tasks (set_status i st s) = (tasks s)[i := (fst (tasks s ! i), st)]"
  by (simp_all add: set_status_def)

lemma enqueue_snowball_fields:
  "processedDomains (enqueue_snowball d dep sd s) = processedDomains s"
  "crawls (enqueue_snowball d dep sd s) = crawls s"
  "skipped (enqueue_snowball d dep sd s) = skipped s"
  "allRows (enqueue_snowball d dep sd s) = allRows s"
  by (simp_all add: enqueue_snowball_def)

lemma fold_enqueue_snowball_fields:
  "processedDomains (fold (enqueue_snowball d dep) added s) = processedDomains s \<and>
   crawls (fold (enqueue_snowball d dep) added s) = crawls s \<and>
   skipped (fold (enqueue_snowball d dep) added s) = skipped s \<and>
   allRows (fold (enqueue_snowball d dep) added s) = allRows s"
  by (induction added arbitrary: s) (simp_all add: enqueue_snowball_fields)

lemma fold_enqueue_snowball_tasks:
  "tasks (fold (enqueue_snowball d dep) added s) =
   tasks s @ map (\<lambda>sd. (\<lparr>rec = snowRec sd d, depth = dep + 1\<rparr>, Queued))
              (filter (\<lambda>sd. sd \<notin> processedDomains s) added)"
proof (induction added arbitrary: s)
  case Nil
  show ?case by simp
next
  case (Cons sd added)
  have p: "processedDomains (enqueue_snowball d dep sd s) = processedDomains s"
    by (rule enqueue_snowball_fields)
  have t: "tasks (enqueue_snowball d dep sd s) =
        tasks s @ (if sd \<notin> processedDomains s
                   then [(\<lparr>rec = snowRec sd d, depth = dep + 1\<rparr>, Queued)] else [])"
    by (simp add: enqueue_snowball_def)
  show ?case
    by (simp add: Cons.IH [of "enqueue_snowball d dep sd s"] p t)
qed

lemma snowball_fields [simp]:
  "processedDomains (snowball cfg d dep nd s) = processedDomains s"
  "crawls (snowball cfg d dep nd s) = crawls s"
  "skipped (snowball cfg d dep nd s) = skipped s"
  "allRows (snowball cfg d dep nd s) = allRows s"
  by (simp_all add: snowball_def Let_def fold_enqueue_snowball_fields)

lemma addDomain_fields [simp]:
  "processedDomains (addDomain r s) = processedDomains s"
  "crawls (addDomain r s) = crawls s"
  by (simp_all add: addDomain_def)

lemma processOne_resume_fields [simp]:
  "processedDomains (processOne_resume cfg i res s) = processedDomains s"
  "crawls (processOne_resume cfg i res s) = crawls s"
  by (simp_all add: processOne_resume_def Let_def split: crawl_result.splits)

lemma crawl_once_start: "crawl_once s \<Longrightarrow> crawl_once (processOne_start i s)"
  by (auto simp: crawl_once_def processOne_start_def Let_def list_all_iff)

lemma crawl_once_step: "crawl_once s \<Longrightarrow> crawl_once (step cfg ev s)"
proof (cases ev)
  case (Submit r)
  assume "crawl_once s"
  then show ?thesis by (simp add: Submit crawl_once_def)
next
  case (Start i)
  assume "crawl_once s"
  then show ?thesis by (simp add: Start crawl_once_start)
next
  case (CrawlReturns i res)
  assume "crawl_once s"
  then show ?thesis by (simp add: CrawlReturns crawl_once_def)
qed

lemma crawl_once_run: "crawl_once s \<Longrightarrow> crawl_once (run cfg evs s)"
  unfolding run_def
  by (induction evs arbitrary: s) (simp_all add: crawl_once_step)

lemma crawl_once_initial: "crawl_once initial_state"
  by (simp add: crawl_once_def initial_state_def)

lemma distinct_count_list: "distinct xs \<Longrightarrow> count_list xs x \<le> Suc 0"
  by (induction xs) (auto simp: count_list_0_iff)

lemma processedDomains_step: "processedDomains s \<subseteq> processedDomains (step cfg ev s)"
  by (cases ev) (auto simp: processOne_start_def Let_def)

lemma processOne_start_marked:
  assumes "domain (rec (fst (tasks s ! i))) \<in> processedDomains s"
  shows "processOne_start i s = set_status i Done s"
  using assms by (simp add: processOne_start_def Let_def)

text \<open>
  C1.  Whatever the sources submit and in whatever order the tasks are started and their
  crawls return, every hostname stands at most once in the record of the crawls.  Every
  crawled hostname is in the processed set, the processed set never loses a member, and a
  task that starts when its hostname is in the processed set returns without a crawl.
  (A hostname is the \<open>domain\<close> string of the record, compared as it stands.)
\<close>

theorem at_most_one_crawl:
  "(\<forall>d. count_list (crawls (run cfg evs initial_state)) d \<le> 1) \<and>
   set (crawls (run cfg evs initial_state)) \<subseteq> processedDomains (run cfg evs initial_state) \<and>
   (\<forall>s ev. processedDomains s \<subseteq> processedDomains (step cfg ev s)) \<and>
   (\<forall>s i. has_status s i Queued \<and> domain (rec (fst (tasks s ! i))) \<in> processedDomains s \<longrightarrow>
      crawls (step cfg (Start i) s) = crawls s \<and> has_status (step cfg (Start i) s) i Done)"
proof -
  have inv: "crawl_once (run cfg evs initial_state)"
    using crawl_once_initial by (rule crawl_once_run)
  then have a: "\<forall>d. count_list (crawls (run cfg evs initial_state)) d \<le> 1"
    using distinct_count_list [of "crawls (run cfg evs initial_state)"]
    by (simp add: crawl_once_def)
  from inv have b: "set (crawls (run cfg evs initial_state))
      \<subseteq> processedDomains (run cfg evs initial_state)"
    by (auto simp: crawl_once_def list_all_iff)
  have c: "\<forall>s ev. processedDomains s \<subseteq> processedDomains (step cfg ev s)"
    using processedDomains_step by blast
  have d: "crawls (step cfg (Start i) s) = crawls s \<and> has_status (step cfg (Start i) s) i Done"
    if "has_status s i Queued \<and> domain (rec (fst (tasks s ! i))) \<in> processedDomains s" for s i
    using that by (simp add: processOne_start_marked has_status_def)
  from a b c d show ?thesis by blast
qed

theorem at_most_one_crawl_witness:
  "crawls (run example_config example_run initial_state) =
     [''tours.example'', ''peer-travel.example''] \<and>
   count_list (crawls (run example_config example_run initial_state)) ''tours.example'' \<le> 1 \<and>
   has_status (run example_config (take 4 example_run) initial_state) 1 Queued \<and>
   processedDomains (run example_config (take 4 example_run) initial_state) = {''tours.example''} \<and>
   crawls (step example_config (Start 1) (run example_config (take 4 example_run) initial_state)) =
     crawls (run example_config (take 4 example_run) initial_state)"
proof -
  let ?s = "run example_config (take 4 example_run) initial_state"
  have a: "crawls (run example_config example_run initial_state) =
     [''tours.example'', ''peer-travel.example'']"
    by code_simp
  from at_most_one_crawl [of example_config example_run]
  have b: "count_list (crawls (run example_config example_run initial_state)) ''tours.example'' \<le> 1"
    by blast
  have c: "has_status ?s 1 Queued" by code_simp
  have d: "processedDomains ?s = {''tours.example''}" by code_simp
  have e: "domain (rec (fst (tasks ?s ! 1))) \<in> processedDomains ?s" by code_simp
  from at_most_one_crawl [of example_config example_run] c e
  have f: "crawls (step example_config (Start 1) ?s) = crawls ?s" by blast
  from a b c d f show ?thesis by (intro conjI)
qed

subsection \<open>addDomain\<close>

text \<open>
  C2, as the code has it.  \<open>addDomain\<close> changes nothing when the domain of the record is
  in the processed set; otherwise it appends one task at depth 0 and nothing else: the
  processed set is the same after the call as before.  The domain is marked when its task
  starts (the first statements of \<open>processOne\<close>), and a start crawls no domain but the one
  it has just marked.
\<close>

theorem addDomain_enqueues_only:
  "(domain r \<in> processedDomains s \<longrightarrow> addDomain r s = s) \<and>
   (domain r \<notin> processedDomains s \<longrightarrow>
      addDomain r s = s\<lparr>tasks := tasks s @ [(\<lparr>rec = r, depth = 0\<rparr>, Queued)]\<rparr>) \<and>
   processedDomains (addDomain r s) = processedDomains s \<and>
   (\<forall>i. has_status s i Queued \<longrightarrow>
      domain (rec (fst (tasks s ! i))) \<in> processedDomains (step cfg (Start i) s) \<and>
      set (crawls (step cfg (Start i) s)) - set (crawls s) \<subseteq> {domain (rec (fst (tasks s ! i)))})"
proof -
  have a: "domain r \<in> processedDomains s \<longrightarrow> addDomain r s = s"
    by (simp add: addDomain_def)
  have b: "domain r \<notin> processedDomains s \<longrightarrow>
      addDomain r s = s\<lparr>tasks := tasks s @ [(\<lparr>rec = r, depth = 0\<rparr>, Queued)]\<rparr>"
    by (simp add: addDomain_def)
  have c: "processedDomains (addDomain r s) = processedDomains s"
    by (cases "domain r \<in> processedDomains s") (simp_all add: addDomain_def)
  have d: "domain (rec (fst (tasks s ! i))) \<in> processedDomains (step cfg (Start i) s) \<and>
      set (crawls (step cfg (Start i) s)) - set (crawls s) \<subseteq> {domain (rec (fst (tasks s ! i)))}"
    if q: "has_status s i Queued" for i
  proof -
    let ?d = "domain (rec (fst (tasks s ! i)))"
    from q have st: "step cfg (Start i) s = processOne_start i s" by simp
    show ?thesis
    proof (cases "?d \<in> processedDomains s")
      case True
      then have "processOne_start i s = set_status i Done s"
        by (rule processOne_start_marked)
      with True show ?thesis unfolding st by simp
    next
      case False
      show ?thesis
      proof (cases "isTurkeyBasedDomain ?d")
        case True
        with False show ?thesis
          unfolding st by (simp add: processOne_start_def Let_def)
      next
        case nt: False
        with False show ?thesis
          unfolding st by (auto simp: processOne_start_def Let_def)
      qed
    qed
  qed
  from a b c d show ?thesis by blast
qed

theorem addDomain_enqueues_only_witness:
  "processedDomains (addDomain (discovered ''tours.example'') initial_state) = {} \<and>
   tasks (addDomain (discovered ''tours.example'') initial_state) =
     [(\<lparr>rec = discovered ''tours.example'', depth = 0\<rparr>, Queued)] \<and>
   has_status (addDomain (discovered ''tours.example'') initial_state) 0 Queued \<and>
   ''tours.example'' \<in> processedDomains
      (step example_config (Start 0) (addDomain (discovered ''tours.example'') initial_state)) \<and>
   addDomain (discovered ''tours.example'')
      (step example_config (Start 0) (addDomain (discovered ''tours.example'') initial_state)) =
   step example_config (Start 0) (addDomain (discovered ''tours.example'') initial_state)"
proof -
  let ?r = "discovered ''tours.example''"
  let ?s = "addDomain ?r initial_state"
  let ?s' = "step example_config (Start 0) ?s"
  have dr: "domain ?r = ''tours.example''" by (simp add: discovered_def)
  from addDomain_enqueues_only [of ?r initial_state example_config]
  have a: "processedDomains ?s = {}" by (simp add: initial_state_def)
  have "domain ?r \<notin> processedDomains initial_state" by (simp add: initial_state_def)
  with addDomain_enqueues_only [of ?r initial_state example_config]
  have "?s = initial_state\<lparr>tasks := tasks initial_state @ [(\<lparr>rec = ?r, depth = 0\<rparr>, Queued)]\<rparr>"
    by blast
  then have a': "tasks ?s = [(\<lparr>rec = ?r, depth = 0\<rparr>, Queued)]"
    by (simp add: initial_state_def)
  have b: "has_status ?s 0 Queued"
    by (simp add: has_status_def a')
  have t: "domain (rec (fst (tasks ?s ! 0))) = ''tours.example''"
    by (simp add: a' dr)
  from addDomain_enqueues_only [of ?r ?s example_config] b
  have "domain (rec (fst (tasks ?s ! 0))) \<in> processedDomains ?s'" by blast
  then have c: "''tours.example'' \<in> processedDomains ?s'" by (simp only: t)
  then have "domain ?r \<in> processedDomains ?s'" by (simp only: dr)
  with addDomain_enqueues_only [of ?r ?s' example_config]
  have d: "addDomain ?r ?s' = ?s'" by blast
  from a a' b c d show ?thesis by (intro conjI)
qed

text \<open>
  The marking at submission time fails on the first submission of a run already:
  after the call the task is queued and the processed set is still empty.
\<close>

theorem addDomain_marks_counterexample:
  "domain (discovered ''tours.example'')
     \<notin> processedDomains (addDomain (discovered ''tours.example'') initial_state) \<and>
   tasks (addDomain (discovered ''tours.example'') initial_state) =
     [(\<lparr>rec = discovered ''tours.example'', depth = 0\<rparr>, Queued)]"
  by (simp add: addDomain_def initial_state_def)

subsection \<open>Snowball\<close>

lemma resume_tasks_no_pages:
  assumes "res = CrawlThrows msg \<or> res = Crawled [] nd name"
  shows "tasks (processOne_resume cfg i res s) = (tasks s)[i := (fst (tasks s ! i), Done)]"
  using assms by (auto simp: processOne_resume_def Let_def)

lemma resume_tasks_pages:
  assumes "pages \<noteq> []" and "i < length (tasks s)"
  shows "tasks (processOne_resume cfg i (Crawled pages nd name) s) =
         (tasks s)[i := (fst (tasks s ! i), Done)] @
         (if snowballEnabled cfg \<and> depth (fst (tasks s ! i)) < snowballMaxDepth cfg
          then map (\<lambda>sd. (\<lparr>rec = snowRec sd (domain (rec (fst (tasks s ! i)))),
                             depth = depth (fst (tasks s ! i)) + 1\<rparr>, Queued))
                 (filter (\<lambda>sd. sd \<notin> processedDomains s)
                    (take (snowballMaxPerSource cfg)
                       (filter (\<lambda>sd. \<not> isTurkeyBasedDomain sd) nd)))
          else [])"
proof -
  let ?t = "fst (tasks s ! i)"
  let ?s1 = "snowball cfg (domain (rec ?t)) (depth ?t) nd s"
  let ?new = "(if snowballEnabled cfg \<and> depth ?t < snowballMaxDepth cfg
          then map (\<lambda>sd. (\<lparr>rec = snowRec sd (domain (rec ?t)), depth = depth ?t + 1\<rparr>, Queued))
                 (filter (\<lambda>sd. sd \<notin> processedDomains s)
                    (take (snowballMaxPerSource cfg)
                       (filter (\<lambda>sd. \<not> isTurkeyBasedDomain sd) nd)))
          else [])"
  have t1: "tasks ?s1 = tasks s @ ?new"
    by (simp add: snowball_def Let_def fold_enqueue_snowball_tasks)
  have "tasks (processOne_resume cfg i (Crawled pages nd name) s) =
        (tasks ?s1)[i := (fst (tasks ?s1 ! i), Done)]"
    using assms(1) by (simp add: processOne_resume_def Let_def)
  also have "\<dots> = (tasks s)[i := (?t, Done)] @ ?new"
    unfolding t1 using assms(2) by (simp add: list_update_append1 nth_append)
  finally show ?thesis .
qed

text \<open>
  C9.  When the crawl of a task in flight returns, the step appends at most
  \<open>snowballMaxPerSource\<close> tasks, all queued at the depth of the task plus one, and none at
  all unless snowball is enabled and the depth of the task is below the maximum.  With
  snowball enabled and the depth below the maximum, pages that yield fifteen candidates, none
  excluded by the region filter and none in the processed set, and a maximum of ten, make it
  append exactly ten: the first ten candidates.
\<close>

theorem snowball_bound:
  assumes "has_status s i InFlight"
  shows "\<exists>new.
     tasks (step cfg (CrawlReturns i res) s) = (tasks s)[i := (fst (tasks s ! i), Done)] @ new \<and>
     length new \<le> snowballMaxPerSource cfg \<and>
     (\<forall>tk \<in> set new. depth (fst tk) = depth (fst (tasks s ! i)) + 1 \<and> snd tk = Queued) \<and>
     (\<not> (snowballEnabled cfg \<and> depth (fst (tasks s ! i)) < snowballMaxDepth cfg) \<longrightarrow> new = []) \<and>
     (\<forall>pages newDomains name.
        res = Crawled pages newDomains name \<and> pages \<noteq> [] \<and>
        snowballEnabled cfg \<and> depth (fst (tasks s ! i)) < snowballMaxDepth cfg \<and>
        length newDomains = 15 \<and> snowballMaxPerSource cfg = 10 \<and>
        (\<forall>sd \<in> set newDomains. \<not> isTurkeyBasedDomain sd \<and> sd \<notin> processedDomains s) \<longrightarrow>
          length new = 10 \<and> map (\<lambda>tk. domain (rec (fst tk))) new = take 10 newDomains)"
proof -
  let ?t = "fst (tasks s ! i)"
  let ?base = "(tasks s)[i := (?t, Done)]"
  from assms have i: "i < length (tasks s)" by (simp add: has_status_def)
  from assms have st: "step cfg (CrawlReturns i res) s = processOne_resume cfg i res s" by simp
  consider (none) msg nd name where "res = CrawlThrows msg \<or> res = Crawled [] nd name"
    | (pages) pages nd name where "res = Crawled pages nd name" "pages \<noteq> []"
    by (cases res) auto
  then show ?thesis
  proof cases
    case none
    then have "tasks (step cfg (CrawlReturns i res) s) = ?base @ []"
      unfolding st by (simp add: resume_tasks_no_pages)
    moreover from none have "\<not> (\<exists>pages newDomains name. res = Crawled pages newDomains name \<and> pages \<noteq> [])"
      by auto
    ultimately show ?thesis by (intro exI [of _ "[]"]) auto
  next
    case pages
    let ?added = "take (snowballMaxPerSource cfg) (filter (\<lambda>sd. \<not> isTurkeyBasedDomain sd) nd)"
    let ?mk = "\<lambda>sd. (\<lparr>rec = snowRec sd (domain (rec ?t)), depth = depth ?t + 1\<rparr>, Queued)"
    let ?on = "snowballEnabled cfg \<and> depth ?t < snowballMaxDepth cfg"
    let ?new = "if ?on then map ?mk (filter (\<lambda>sd. sd \<notin> processedDomains s) ?added) else []"
    have "tasks (processOne_resume cfg i (Crawled pages nd name) s) = ?base @ ?new"
      using pages(2) i by (rule resume_tasks_pages)
    with st pages(1) have a: "tasks (step cfg (CrawlReturns i res) s) = ?base @ ?new"
      by simp
    have "length (filter (\<lambda>sd. sd \<notin> processedDomains s) ?added) \<le> length ?added"
      by (rule length_filter_le)
    also have "\<dots> \<le> snowballMaxPerSource cfg" by simp
    finally have b: "length ?new \<le> snowballMaxPerSource cfg" by simp
    have c: "\<forall>tk \<in> set ?new. depth (fst tk) = depth ?t + 1 \<and> snd tk = Queued"
      by auto
    have d: "\<not> ?on \<longrightarrow> ?new = []" by simp
    have e: "length ?new = 10 \<and> map (\<lambda>tk. domain (rec (fst tk))) ?new = take 10 newDomains"
      if h: "res = Crawled pages' newDomains name' \<and> pages' \<noteq> [] \<and> ?on \<and>
        length newDomains = 15 \<and> snowballMaxPerSource cfg = 10 \<and>
        (\<forall>sd \<in> set newDomains. \<not> isTurkeyBasedDomain sd \<and> sd \<notin> processedDomains s)"
      for pages' newDomains name'
    proof -
      from h pages(1) have nd: "nd = newDomains" by simp
      from h have f1: "filter (\<lambda>sd. \<not> isTurkeyBasedDomain sd) newDomains = newDomains"
        by (simp add: filter_id_conv)
      from h have f2: "filter (\<lambda>sd. sd \<notin> processedDomains s) (take 10 newDomains) =
                       take 10 newDomains"
        by (auto simp: filter_id_conv dest: in_set_takeD)
      from h have n: "?new = map ?mk (take 10 newDomains)"
        by (simp add: nd f1 f2)
      from h show ?thesis
        unfolding n by (simp add: comp_def snowRec_def)
    qed
    from a b c d e show ?thesis by blast
  qed
qed

theorem snowball_bound_witness:
  "has_status (run example_config [Submit (discovered ''tours.example''), Start 0] initial_state)
     0 InFlight \<and>
   length fifteen_peers = 15 \<and>
   length (tasks (step example_config (CrawlReturns 0 (Crawled [turkey_page] fifteen_peers ''Tours''))
             (run example_config [Submit (discovered ''tours.example''), Start 0] initial_state)))
     = 11 \<and>
   map (\<lambda>tk. domain (rec (fst tk)))
     (drop 1 (tasks (step example_config
        (CrawlReturns 0 (Crawled [turkey_page] fifteen_peers ''Tours''))
        (run example_config [Submit (discovered ''tours.example''), Start 0] initial_state)))) =
   take 10 fifteen_peers \<and>
   list_all (\<lambda>tk. depth (fst tk) = 1 \<and> snd tk = Queued)
     (drop 1 (tasks (step example_config
        (CrawlReturns 0 (Crawled [turkey_page] fifteen_peers ''Tours''))
        (run example_config [Submit (discovered ''tours.example''), Start 0] initial_state)))) \<and>
   length (tasks (step (example_config\<lparr>snowballEnabled := False\<rparr>)
             (CrawlReturns 0 (Crawled [turkey_page] fifteen_peers ''Tours''))
             (run example_config [Submit (discovered ''tours.example''), Start 0] initial_state)))
     = 1"
proof -
  let ?s = "run example_config [Submit (discovered ''tours.example''), Start 0] initial_state"
  let ?ev = "CrawlReturns 0 (Crawled [turkey_page] fifteen_peers ''Tours'')"
  let ?s' = "step example_config ?ev ?s"
  let ?off = "example_config\<lparr>snowballEnabled := False\<rparr>"
  have h1: "has_status ?s 0 InFlight" by code_simp
  have h2: "snowballEnabled example_config" by (simp add: example_config_def)
  have h3: "depth (fst (tasks ?s ! 0)) < snowballMaxDepth example_config" by code_simp
  have h4: "[turkey_page] \<noteq> []" by simp
  have h5: "length fifteen_peers = 15" by (simp add: fifteen_peers_def)
  have h6: "snowballMaxPerSource example_config = 10" by (simp add: example_config_def)
  have h7: "\<forall>sd \<in> set fifteen_peers. \<not> isTurkeyBasedDomain sd \<and> sd \<notin> processedDomains ?s"
    by code_simp
  have len: "length (tasks ?s) = 1" by code_simp
  have dep: "depth (fst (tasks ?s ! 0)) = 0" by code_simp
  from snowball_bound [OF h1, of example_config "Crawled [turkey_page] fifteen_peers ''Tours''"]
    h2 h3 h4 h5 h6 h7
  obtain new where t: "tasks ?s' = (tasks ?s)[0 := (fst (tasks ?s ! 0), Done)] @ new"
    and n: "length new = 10"
    and m: "map (\<lambda>tk. domain (rec (fst tk))) new = take 10 fifteen_peers"
    and q: "\<forall>tk \<in> set new. depth (fst tk) = depth (fst (tasks ?s ! 0)) + 1 \<and> snd tk = Queued"
    by blast
  have dr: "drop 1 (tasks ?s') = new" unfolding t by (simp add: len)
  have a: "length (tasks ?s') = 11" unfolding t by (simp add: n len)
  have b: "map (\<lambda>tk. domain (rec (fst tk))) (drop 1 (tasks ?s')) = take 10 fifteen_peers"
    unfolding dr by (rule m)
  have c: "list_all (\<lambda>tk. depth (fst tk) = 1 \<and> snd tk = Queued) (drop 1 (tasks ?s'))"
    unfolding dr using q by (simp add: list_all_iff dep)
  have off: "\<not> (snowballEnabled ?off \<and> depth (fst (tasks ?s ! 0)) < snowballMaxDepth ?off)"
    by simp
  from snowball_bound [OF h1, of ?off "Crawled [turkey_page] fifteen_peers ''Tours''"] off
  obtain new' where t': "tasks (step ?off ?ev ?s) = (tasks ?s)[0 := (fst (tasks ?s ! 0), Done)] @ new'"
    and e': "new' = []" by blast
  have d: "length (tasks (step ?off ?ev ?s)) = 1" unfolding t' e' by (simp add: len)
  from h1 h5 a b c d show ?thesis by (intro conjI)
qed

subsection \<open>Relevance\<close>

lemma startsWith_iff: "startsWith s p \<longleftrightarrow> (\<exists>q. s = p @ q)"
  by (induction s p rule: startsWith.induct) auto

lemma str_includes_iff: "str_includes s t \<longleftrightarrow> (\<exists>p q. s = p @ t @ q)"
proof (induction s)
  case Nil
  show ?case by auto
next
  case (Cons c cs)
  show ?case
  proof
    assume "str_includes (c # cs) t"
    then consider "startsWith (c # cs) t" | "str_includes cs t" by auto
    then show "\<exists>p q. c # cs = p @ t @ q"
    proof cases
      case 1
      then obtain q where "c # cs = t @ q" by (auto simp: startsWith_iff)
      then have "c # cs = [] @ t @ q" by simp
      then show ?thesis by blast
    next
      case 2
      with Cons.IH obtain p q where "cs = p @ t @ q" by blast
      then have "c # cs = (c # p) @ t @ q" by simp
      then show ?thesis by blast
    qed
  next
    assume "\<exists>p q. c # cs = p @ t @ q"
    then obtain p q where e: "c # cs = p @ t @ q" by blast
    show "str_includes (c # cs) t"
    proof (cases p)
      case Nil
      with e have "startsWith (c # cs) t" by (auto simp: startsWith_iff)
      then show ?thesis by simp
    next
      case (Cons a p')
      with e have "cs = p' @ t @ q" by simp
      with Cons.IH have "str_includes cs t" by blast
      then show ?thesis by simp
    qed
  qed
qed

lemma fold_score_destination:
  "fst (fold (score_destination text) terms sm) =
     fst sm + int (length (filter (str_includes text) terms))"
  by (induction terms arbitrary: sm) (simp_all add: score_destination_def)

lemma distinct_DESTINATION_TERMS: "distinct DESTINATION_TERMS"
  by (simp add: DESTINATION_TERMS_def)

lemma card_destinations:
  "card {d \<in> set DESTINATION_TERMS. str_includes text d} =
     length (filter (str_includes text) DESTINATION_TERMS)"
proof -
  have "distinct (filter (str_includes text) DESTINATION_TERMS)"
    using distinct_DESTINATION_TERMS by (rule distinct_filter)
  then have "card (set (filter (str_includes text) DESTINATION_TERMS)) =
        length (filter (str_includes text) DESTINATION_TERMS)"
    by (rule distinct_card)
  then show ?thesis by simp
qed

lemma relevanceScore_formula:
  "relevanceScore (scoreRelevance t kws) =
     (if \<exists>c \<in> set TURKEY_TERMS. str_includes (toLowerCase t) c then 2 else 0) +
     int (card {d \<in> set DESTINATION_TERMS. str_includes (toLowerCase t) d}) -
     (if \<exists>k \<in> set kws. str_includes (toLowerCase t) (toLowerCase k) then 2 else 0)"
  by (simp add: scoreRelevance_def Let_def fold_score_destination card_destinations)

lemma processOne_resume_kept:
  assumes "pages \<noteq> []"
    and "minScore cfg \<le> relevanceScore
           (scoreRelevance (join_space (map html pages)) (unrelatedKeywords cfg))"
  shows "skipped (processOne_resume cfg i (Crawled pages nd name) s) = skipped s \<and>
         allRows (processOne_resume cfg i (Crawled pages nd name) s) =
           allRows s @ lead_rows name (rec (fst (tasks s ! i)))
             (relevanceScore (scoreRelevance (join_space (map html pages)) (unrelatedKeywords cfg)))
             (extractEmailsFromPages pages (extractOptions cfg))"
  using assms by (simp add: processOne_resume_def Let_def)

lemma processOne_resume_skipped:
  assumes "pages \<noteq> []"
    and "relevanceScore
           (scoreRelevance (join_space (map html pages)) (unrelatedKeywords cfg)) < minScore cfg"
  shows "skipped (processOne_resume cfg i (Crawled pages nd name) s) =
           skipped s @ [(domain (rec (fst (tasks s ! i))), ''score below threshold'')] \<and>
         allRows (processOne_resume cfg i (Crawled pages nd name) s) = allRows s"
  using assms by (simp add: processOne_resume_def Let_def)

text \<open>
  C8.  The score of \<open>scoreRelevance\<close> is 2 when a core-region term occurs in the lower-cased
  text, plus the number of destination terms that occur in it, minus 2 when one of the
  lower-cased blocklist keywords occurs in it.  A text with a core-region term, exactly one
  destination term and no blocklist keyword scores 3.  When the crawl of a task returns
  pages, the task emits its rows if the score is at least \<open>minScore\<close> and is recorded as
  skipped (and emits nothing) if the score is below it.
\<close>

theorem relevance_score_and_threshold:
  "relevanceScore (scoreRelevance t kws) =
     (if \<exists>c \<in> set TURKEY_TERMS. str_includes (toLowerCase t) c then 2 else 0) +
     int (card {d \<in> set DESTINATION_TERMS. str_includes (toLowerCase t) d}) -
     (if \<exists>k \<in> set kws. str_includes (toLowerCase t) (toLowerCase k) then 2 else 0) \<and>
   ((\<exists>c \<in> set TURKEY_TERMS. str_includes (toLowerCase t) c) \<and>
    card {d \<in> set DESTINATION_TERMS. str_includes (toLowerCase t) d} = 1 \<and>
    \<not> (\<exists>k \<in> set kws. str_includes (toLowerCase t) (toLowerCase k)) \<longrightarrow>
      relevanceScore (scoreRelevance t kws) = 3) \<and>
   (\<forall>cfg i pages nd name s. has_status s i InFlight \<and> pages \<noteq> [] \<longrightarrow>
      (let score = relevanceScore
                     (scoreRelevance (join_space (map html pages)) (unrelatedKeywords cfg));
           s' = step cfg (CrawlReturns i (Crawled pages nd name)) s
       in (minScore cfg \<le> score \<longrightarrow>
             skipped s' = skipped s \<and>
             allRows s' = allRows s @ lead_rows name (rec (fst (tasks s ! i))) score
                            (extractEmailsFromPages pages (extractOptions cfg))) \<and>
          (score < minScore cfg \<longrightarrow>
             skipped s' = skipped s @
                [(domain (rec (fst (tasks s ! i))), ''score below threshold'')] \<and>
             allRows s' = allRows s)))"
proof -
  have a: "relevanceScore (scoreRelevance t kws) =
     (if \<exists>c \<in> set TURKEY_TERMS. str_includes (toLowerCase t) c then 2 else 0) +
     int (card {d \<in> set DESTINATION_TERMS. str_includes (toLowerCase t) d}) -
     (if \<exists>k \<in> set kws. str_includes (toLowerCase t) (toLowerCase k) then 2 else 0)"
    by (rule relevanceScore_formula)
  have b: "relevanceScore (scoreRelevance t kws) = 3"
    if "(\<exists>c \<in> set TURKEY_TERMS. str_includes (toLowerCase t) c) \<and>
    card {d \<in> set DESTINATION_TERMS. str_includes (toLowerCase t) d} = 1 \<and>
    \<not> (\<exists>k \<in> set kws. str_includes (toLowerCase t) (toLowerCase k))"
    unfolding a using that by simp
  have c: "\<forall>cfg i pages nd name s. has_status s i InFlight \<and> pages \<noteq> [] \<longrightarrow>
      (let score = relevanceScore
                     (scoreRelevance (join_space (map html pages)) (unrelatedKeywords cfg));
           s' = step cfg (CrawlReturns i (Crawled pages nd name)) s
       in (minScore cfg \<le> score \<longrightarrow>
             skipped s' = skipped s \<and>
             allRows s' = allRows s @ lead_rows name (rec (fst (tasks s ! i))) score
                            (extractEmailsFromPages pages (extractOptions cfg))) \<and>
          (score < minScore cfg \<longrightarrow>
             skipped s' = skipped s @
                [(domain (rec (fst (tasks s ! i))), ''score below threshold'')] \<and>
             allRows s' = allRows s))"
    unfolding Let_def
    using processOne_resume_kept processOne_resume_skipped by simp
  from a b c show ?thesis by blast
qed

theorem relevance_score_and_threshold_witness:
  "relevanceScore (scoreRelevance ''Tours to Turkey: Antalya'' [''casino'']) = 3 \<and>
   relevanceScore (scoreRelevance (join_space (map html [turkey_page])) [''casino'']) = 3 \<and>
   map row_email (allRows (step example_config (CrawlReturns 0 (Crawled [turkey_page] [] ''Tours''))
      (run example_config [Submit (discovered ''tours.example''), Start 0] initial_state))) =
     [''info@tours.example''] \<and>
   skipped (step (example_config\<lparr>minScore := 4\<rparr>) (CrawlReturns 0 (Crawled [turkey_page] [] ''Tours''))
      (run example_config [Submit (discovered ''tours.example''), Start 0] initial_state)) =
     [(''tours.example'', ''score below threshold'')] \<and>
   allRows (step (example_config\<lparr>minScore := 4\<rparr>) (CrawlReturns 0 (Crawled [turkey_page] [] ''Tours''))
      (run example_config [Submit (discovered ''tours.example''), Start 0] initial_state)) = []"
proof -
  let ?t = "''Tours to Turkey: Antalya''"
  let ?s = "run example_config [Submit (discovered ''tours.example''), Start 0] initial_state"
  let ?ev = "CrawlReturns 0 (Crawled [turkey_page] [] ''Tours'')"
  let ?c4 = "example_config\<lparr>minScore := 4\<rparr>"
  let ?score = "relevanceScore (scoreRelevance (join_space (map html [turkey_page])) [''casino''])"
  have h: "(\<exists>c \<in> set TURKEY_TERMS. str_includes (toLowerCase ?t) c) \<and>
    card {d \<in> set DESTINATION_TERMS. str_includes (toLowerCase ?t) d} = 1 \<and>
    \<not> (\<exists>k \<in> set [''casino'']. str_includes (toLowerCase ?t) (toLowerCase k))"
    by code_simp
  from relevance_score_and_threshold [of ?t "[''casino'']"] h
  have a: "relevanceScore (scoreRelevance ?t [''casino'']) = 3" by blast
  have b: "?score = 3" by code_simp
  have st: "has_status ?s 0 InFlight \<and> [turkey_page] \<noteq> []" by code_simp
  have k: "unrelatedKeywords example_config = [''casino'']" "minScore example_config = 2"
    "unrelatedKeywords ?c4 = [''casino'']" "minScore ?c4 = 4"
    by (simp_all add: example_config_def)
  from relevance_score_and_threshold [of ?t "[''casino'']"] st
  have "let score = relevanceScore
                     (scoreRelevance (join_space (map html [turkey_page]))
                        (unrelatedKeywords example_config));
           s' = step example_config ?ev ?s
       in (minScore example_config \<le> score \<longrightarrow>
             skipped s' = skipped ?s \<and>
             allRows s' = allRows ?s @ lead_rows ''Tours'' (rec (fst (tasks ?s ! 0))) score
                            (extractEmailsFromPages [turkey_page] (extractOptions example_config))) \<and>
          (score < minScore example_config \<longrightarrow>
             skipped s' = skipped ?s @
                [(domain (rec (fst (tasks ?s ! 0))), ''score below threshold'')] \<and>
             allRows s' = allRows ?s)"
    by blast
  then have "allRows (step example_config ?ev ?s) =
       allRows ?s @ lead_rows ''Tours'' (rec (fst (tasks ?s ! 0))) 3
                            (extractEmailsFromPages [turkey_page] (extractOptions example_config))"
    unfolding Let_def k b by simp
  moreover have "map row_email (allRows ?s @ lead_rows ''Tours'' (rec (fst (tasks ?s ! 0))) 3
                            (extractEmailsFromPages [turkey_page] (extractOptions example_config))) =
      [''info@tours.example'']"
    by code_simp
  ultimately have c: "map row_email (allRows (step example_config ?ev ?s)) =
      [''info@tours.example'']" by simp
  from relevance_score_and_threshold [of ?t "[''casino'']"] st
  have "let score = relevanceScore
                     (scoreRelevance (join_space (map html [turkey_page]))
                        (unrelatedKeywords ?c4));
           s' = step ?c4 ?ev ?s
       in (minScore ?c4 \<le> score \<longrightarrow>
             skipped s' = skipped ?s \<and>
             allRows s' = allRows ?s @ lead_rows ''Tours'' (rec (fst (tasks ?s ! 0))) score
                            (extractEmailsFromPages [turkey_page] (extractOptions ?c4))) \<and>
          (score < minScore ?c4 \<longrightarrow>
             skipped s' = skipped ?s @
                [(domain (rec (fst (tasks ?s ! 0))), ''score below threshold'')] \<and>
             allRows s' = allRows ?s)"
    by blast
  then have d0: "skipped (step ?c4 ?ev ?s) = skipped ?s @
                [(domain (rec (fst (tasks ?s ! 0))), ''score below threshold'')] \<and>
             allRows (step ?c4 ?ev ?s) = allRows ?s"
    unfolding Let_def k b by simp
  have e: "skipped ?s = [] \<and> allRows ?s = [] \<and> domain (rec (fst (tasks ?s ! 0))) = ''tours.example''"
    by code_simp
  from d0 e have d: "skipped (step ?c4 ?ev ?s) = [(''tours.example'', ''score below threshold'')]"
    and f: "allRows (step ?c4 ?ev ?s) = []" by simp_all
  from a b c d f show ?thesis by (intro conjI)
qed

subsection \<open>Page fetch with retry\<close>

lemma fetch_loop_all_fail:
  assumes "\<forall>j. i \<le> j \<and> j < retries \<longrightarrow> isl (get u j)"
  shows "fetch_loop get u retries delays i lastErr trace =
     (Inl (if i < retries then Caught (projl (get u (retries - 1))) else lastErr),
      trace @ concat (map (failed_attempt u retries delays) [i..<retries]))"
  using assms
proof (induction get u retries delays i lastErr trace rule: fetch_loop.induct)
  case (1 get u retries delays i lastErr trace)
  show ?case
  proof (cases "i < retries")
    case False
    then show ?thesis by (simp add: fetch_loop.simps [of get u retries delays i])
  next
    case True
    with "1.prems" obtain err where err: "get u i = Inl err" by (auto simp: isl_def)
    have ih: "fetch_loop get u retries delays (Suc i) (Caught err)
                 (trace @ [Get u i] @ backoff retries delays i) =
     (Inl (if Suc i < retries then Caught (projl (get u (retries - 1))) else Caught err),
      (trace @ [Get u i] @ backoff retries delays i) @
        concat (map (failed_attempt u retries delays) [Suc i..<retries]))"
      using "1.prems" by (intro "1.IH" [OF True err]) auto
    have unf: "fetch_loop get u retries delays i lastErr trace =
          fetch_loop get u retries delays (Suc i) (Caught err)
                 (trace @ [Get u i] @ backoff retries delays i)"
      by (subst fetch_loop.simps) (simp add: True err)
    have lst: "projl (get u (retries - 1)) = err" if "\<not> Suc i < retries"
    proof -
      from that True have "retries - 1 = i" by simp
      with err show ?thesis by simp
    qed
    from True have up: "[i..<retries] = i # [Suc i..<retries]" by (simp add: upt_conv_Cons)
    have "(Inl (if Suc i < retries then Caught (projl (get u (retries - 1))) else Caught err),
      (trace @ [Get u i] @ backoff retries delays i) @
        concat (map (failed_attempt u retries delays) [Suc i..<retries])) =
     (Inl (if i < retries then Caught (projl (get u (retries - 1))) else lastErr),
      trace @ concat (map (failed_attempt u retries delays) [i..<retries]))"
      unfolding up using True lst by (simp add: failed_attempt_def)
    with unf ih show ?thesis by simp
  qed
qed

lemma fetch_loop_first_success:
  assumes "i \<le> k" and "k < retries" and "get u k = Inr data"
    and "\<forall>j. i \<le> j \<and> j < k \<longrightarrow> isl (get u j)"
  shows "fetch_loop get u retries delays i lastErr trace =
     (Inr data, trace @ concat (map (failed_attempt u retries delays) [i..<k]) @ [Get u k])"
  using assms
proof (induction get u retries delays i lastErr trace rule: fetch_loop.induct)
  case (1 get u retries delays i lastErr trace)
  from "1.prems" have lt: "i < retries" by simp
  show ?case
  proof (cases "i = k")
    case True
    with "1.prems" lt show ?thesis
      by (subst fetch_loop.simps) simp
  next
    case False
    with "1.prems" have ik: "i < k" by simp
    with "1.prems" obtain err where err: "get u i = Inl err" by (auto simp: isl_def)
    have ih: "fetch_loop get u retries delays (Suc i) (Caught err)
                 (trace @ [Get u i] @ backoff retries delays i) =
      (Inr data, (trace @ [Get u i] @ backoff retries delays i) @
         concat (map (failed_attempt u retries delays) [Suc i..<k]) @ [Get u k])"
      using "1.prems" ik by (intro "1.IH" [OF lt err]) auto
    have unf: "fetch_loop get u retries delays i lastErr trace =
          fetch_loop get u retries delays (Suc i) (Caught err)
                 (trace @ [Get u i] @ backoff retries delays i)"
      by (subst fetch_loop.simps) (simp add: lt err)
    from ik have up: "[i..<k] = i # [Suc i..<k]" by (simp add: upt_conv_Cons)
    have "(trace @ [Get u i] @ backoff retries delays i) @
         concat (map (failed_attempt u retries delays) [Suc i..<k]) @ [Get u k] =
       trace @ concat (map (failed_attempt u retries delays) [i..<k]) @ [Get u k]"
      unfolding up by (simp add: failed_attempt_def)
    with unf ih show ?thesis by simp
  qed
qed

lemma gets_failed_attempts:
  "length (filter is_get (concat (map (failed_attempt u retries delays) [i..<k]))) = k - i"
proof (induction k)
  case 0
  show ?case by simp
next
  case (Suc k)
  have one: "length (filter is_get (failed_attempt u retries delays k)) = 1"
    by (simp add: failed_attempt_def backoff_def is_get_def)
  show ?case
  proof (cases "i \<le> k")
    case True
    with Suc one show ?thesis by simp
  next
    case False
    then show ?thesis by simp
  qed
qed

lemma gets_bound:
  "length (filter is_get (snd (fetchWithRetry get u retries delays))) \<le> retries"
proof (cases "\<exists>k < retries. \<not> isl (get u k)")
  case True
  then obtain k0 where "k0 < retries \<and> \<not> isl (get u k0)" by blast
  then have "\<exists>k. (k < retries \<and> \<not> isl (get u k)) \<and> (\<forall>j < k. \<not> (j < retries \<and> \<not> isl (get u j)))"
    using exists_least_iff [of "\<lambda>k. k < retries \<and> \<not> isl (get u k)"] by blast
  then obtain k where k: "k < retries" and s: "\<not> isl (get u k)"
    and least: "\<forall>j < k. \<not> (j < retries \<and> \<not> isl (get u j))" by blast
  from s obtain data where d: "get u k = Inr data" by (cases "get u k") auto
  from least k have f: "\<forall>j. 0 \<le> j \<and> j < k \<longrightarrow> isl (get u j)" by auto
  have "fetchWithRetry get u retries delays =
        (Inr data, [] @ concat (map (failed_attempt u retries delays) [0..<k]) @ [Get u k])"
    unfolding fetchWithRetry_def
    using k d f by (intro fetch_loop_first_success) simp_all
  then have "length (filter is_get (snd (fetchWithRetry get u retries delays))) = Suc k"
    using gets_failed_attempts [of u retries delays 0 k] by (simp add: is_get_def)
  with k show ?thesis by simp
next
  case False
  then have "\<forall>j. 0 \<le> j \<and> j < retries \<longrightarrow> isl (get u j)" by auto
  then have "fetchWithRetry get u retries delays =
     (Inl (if 0 < retries then Caught (projl (get u (retries - 1))) else Undefined),
      [] @ concat (map (failed_attempt u retries delays) [0..<retries]))"
    unfolding fetchWithRetry_def by (rule fetch_loop_all_fail)
  then show ?thesis
    using gets_failed_attempts [of u retries delays 0 retries] by simp
qed

text \<open>
  C7, as the code has it.  \<open>fetchWithRetry\<close> calls \<open>axios.get\<close> at most \<open>retries\<close>
  times.  When attempt \<open>k\<close> is the first to succeed, the result is its body, and before it
  every failed attempt \<open>i\<close> was followed by a sleep of \<open>delays[i]\<close> when that is configured
  (and \<open>i < retries - 1\<close>, which holds before a further attempt).  When \<open>retries\<close> is
  positive and all attempts fail, the function throws the very exception of the last attempt,
  after the same sleeps between the attempts and none after the last.
\<close>

theorem fetchWithRetry_outcome:
  "length (filter is_get (snd (fetchWithRetry get u retries delays))) \<le> retries \<and>
   (\<forall>k data. k < retries \<and> get u k = Inr data \<and> (\<forall>j < k. isl (get u j)) \<longrightarrow>
      fetchWithRetry get u retries delays =
        (Inr data, concat (map (failed_attempt u retries delays) [0..<k]) @ [Get u k])) \<and>
   (0 < retries \<and> (\<forall>j < retries. isl (get u j)) \<longrightarrow>
      fetchWithRetry get u retries delays =
        (Inl (Caught (projl (get u (retries - 1)))),
         concat (map (failed_attempt u retries delays) [0..<retries]))) \<and>
   (\<forall>i. failed_attempt u retries delays i =
      Get u i # (if Suc i < retries \<and> i < length delays \<and> delays ! i \<noteq> None
                 then [Sleep (the (delays ! i))] else []))"
proof -
  have a: "length (filter is_get (snd (fetchWithRetry get u retries delays))) \<le> retries"
    by (rule gets_bound)
  have b: "fetchWithRetry get u retries delays =
        (Inr data, concat (map (failed_attempt u retries delays) [0..<k]) @ [Get u k])"
    if "k < retries \<and> get u k = Inr data \<and> (\<forall>j < k. isl (get u j))" for k data
  proof -
    from that have "fetch_loop get u retries delays 0 Undefined [] =
        (Inr data, [] @ concat (map (failed_attempt u retries delays) [0..<k]) @ [Get u k])"
      by (intro fetch_loop_first_success) simp_all
    then show ?thesis by (simp add: fetchWithRetry_def)
  qed
  have c: "fetchWithRetry get u retries delays =
        (Inl (Caught (projl (get u (retries - 1)))),
         concat (map (failed_attempt u retries delays) [0..<retries]))"
    if "0 < retries \<and> (\<forall>j < retries. isl (get u j))"
  proof -
    from that have "\<forall>j. 0 \<le> j \<and> j < retries \<longrightarrow> isl (get u j)" by simp
    then have "fetch_loop get u retries delays 0 Undefined [] =
       (Inl (if 0 < retries then Caught (projl (get u (retries - 1))) else Undefined),
        [] @ concat (map (failed_attempt u retries delays) [0..<retries]))"
      by (rule fetch_loop_all_fail)
    with that show ?thesis by (simp add: fetchWithRetry_def)
  qed
  have d: "\<forall>i. failed_attempt u retries delays i =
      Get u i # (if Suc i < retries \<and> i < length delays \<and> delays ! i \<noteq> None
                 then [Sleep (the (delays ! i))] else [])"
    by (simp add: failed_attempt_def backoff_def delay_at_def)
  from a b c d show ?thesis by blast
qed

theorem fetchWithRetry_outcome_witness:
  "fetchWithRetry flaky ''https://a.example/'' 3 [Some 1000, Some 2000, Some 4000] =
     (Inr ''<html>'',
      [Get ''https://a.example/'' 0, Sleep 1000, Get ''https://a.example/'' 1, Sleep 2000,
       Get ''https://a.example/'' 2]) \<and>
   fetchWithRetry unreachable ''https://a.example/'' 3 [Some 1000, None, Some 4000] =
     (Inl (Caught ''ECONNRESET''),
      [Get ''https://a.example/'' 0, Sleep 1000, Get ''https://a.example/'' 1,
       Get ''https://a.example/'' 2])"
proof -
  let ?u = "''https://a.example/''"
  let ?d = "[Some 1000, Some 2000, Some (4000::nat)]"
  let ?e = "[Some 1000, None, Some (4000::nat)]"
  have h1: "(2::nat) < 3 \<and> flaky ?u 2 = Inr ''<html>'' \<and> (\<forall>j < 2. isl (flaky ?u j))"
    by (simp add: flaky_def)
  have n3: "[0..<3] = [0, 1, 2]" "[0..<2] = [0, 1]" by (simp_all add: upt_rec)
  from fetchWithRetry_outcome [of flaky ?u 3 ?d] h1
  have "fetchWithRetry flaky ?u 3 ?d =
        (Inr ''<html>'', concat (map (failed_attempt ?u 3 ?d) [0..<2]) @ [Get ?u 2])"
    by blast
  then have a: "fetchWithRetry flaky ?u 3 ?d =
     (Inr ''<html>'', [Get ?u 0, Sleep 1000, Get ?u 1, Sleep 2000, Get ?u 2])"
    by (simp add: n3 failed_attempt_def backoff_def delay_at_def)
  have h2: "(0::nat) < 3 \<and> (\<forall>j < 3. isl (unreachable ?u j))"
    by (simp add: unreachable_def)
  from fetchWithRetry_outcome [of unreachable ?u 3 ?e] h2
  have "fetchWithRetry unreachable ?u 3 ?e =
        (Inl (Caught (projl (unreachable ?u (3 - 1)))),
         concat (map (failed_attempt ?u 3 ?e) [0..<3]))"
    by blast
  then have b: "fetchWithRetry unreachable ?u 3 ?e =
     (Inl (Caught ''ECONNRESET''), [Get ?u 0, Sleep 1000, Get ?u 1, Get ?u 2])"
    by (simp add: n3 failed_attempt_def backoff_def delay_at_def unreachable_def)
  from a b show ?thesis by (rule conjI)
qed

text \<open>
  With \<open>retries = 0\<close> no attempt is made and the value thrown is \<open>undefined\<close>, which
  carries neither a URL nor a cause; and when the attempts fail, the value thrown for one
  URL is the value thrown for another, the exception of the transport as it came.
\<close>

theorem fetchWithRetry_raises_counterexample:
  "fetchWithRetry unreachable ''https://a.example/'' 0 [Some 1000, Some 2000, Some 4000] =
     (Inl Undefined, []) \<and>
   fst (fetchWithRetry unreachable ''https://a.example/'' 3 [Some 1000, Some 2000, Some 4000]) =
     Inl (Caught ''ECONNRESET'') \<and>
   fst (fetchWithRetry unreachable ''https://b.example/'' 3 [Some 1000, Some 2000, Some 4000]) =
     Inl (Caught ''ECONNRESET'')"
  by code_simp

end
